theory Spec2Isabelle
  imports Main "HOL-Library.Sublist" "HOL-Library.List_Lexorder" "HOL-Library.Char_ord"
begin

section \<open>JavaScript values used by PackageGraph.ts\<close>

text \<open>
  A JavaScript \<^verbatim>\<open>Map\<close> keeps its entries in insertion order and holds every key once.
  It is embedded as an association list: \<^verbatim>\<open>get\<close> is a lookup, \<^verbatim>\<open>set\<close> overwrites the
  value of a key that is present (the entry keeps its place) and appends a new entry
  otherwise, \<^verbatim>\<open>keys()\<close> and \<^verbatim>\<open>values()\<close> enumerate in list order.

  Strings are \<^typ>\<open>string\<close>; the order \<open><\<close> on them is the lexicographic order on the
  characters (a proper prefix is smaller), which is how JavaScript compares strings
  code unit by code unit. \<^verbatim>\<open>s.startsWith(p)\<close> is \<^term>\<open>prefix p s\<close>.
\<close>

type_synonym ('k, 'v) js_map = "('k \<times> 'v) list"

definition map_get :: "('k, 'v) js_map \<Rightarrow> 'k \<Rightarrow> 'v option" where
  "map_get m k = map_of m k"

fun map_set :: "('k, 'v) js_map \<Rightarrow> 'k \<Rightarrow> 'v \<Rightarrow> ('k, 'v) js_map" where
  "map_set [] k v = [(k, v)]"
| "map_set ((k', v') # m) k v =
     (if k' = k then (k, v) # m else (k', v') # map_set m k v)"

definition map_keys :: "('k, 'v) js_map \<Rightarrow> 'k list" where
  "map_keys m = map fst m"

definition map_values :: "('k, 'v) js_map \<Rightarrow> 'v list" where
  "map_values m = map snd m"

text \<open>\<^verbatim>\<open>new Map(entries)\<close>: the entries are set one after the other.\<close>

definition map_from_entries :: "('k \<times> 'v) list \<Rightarrow> ('k, 'v) js_map" where
  "map_from_entries entries = fold (\<lambda>(k, v) m. map_set m k v) entries []"

text \<open>A thrown \<^verbatim>\<open>Error\<close> with its message.\<close>

datatype error = Error string

section \<open>Data model\<close>

text \<open>
  Of a \<^verbatim>\<open>package.json\<close> the graph reads the name and the three dependency objects.
  Each object is the list of its properties (dependency name, version range) in the
  order \<^verbatim>\<open>Object.keys\<close> enumerates them; an absent object is \<^term>\<open>None\<close>.
\<close>

record PackageJSON =
  name :: string
  dependencies :: "(string \<times> string) list option"
  devDependencies :: "(string \<times> string) list option"
  optionalDependencies :: "(string \<times> string) list option"

record Package =
  dir :: string
  packageJson :: PackageJSON

text \<open>
  A graph node carries the fields of its package, its name and five neighbour maps.
  The values of the neighbour maps are references to nodes of the same graph; a
  reference is embedded as the name of the node it points to, which is the key of that
  node in the graph.
\<close>

record PackageGraphNode = Package +
  name :: string
  allLocalDependencies :: "(string, string) js_map"
  publishedLocalDependencies :: "(string, string) js_map"
  localDependencies :: "(string, string) js_map"
  localDevDependencies :: "(string, string) js_map"
  localOptionalDependencies :: "(string, string) js_map"

type_synonym PackageGraph = "(string, PackageGraphNode) js_map"

section \<open>PackageGraph.fromPackages\<close>

definition duplicateMessage :: "string \<Rightarrow> string \<Rightarrow> string \<Rightarrow> string" where
  "duplicateMessage nm pkgDir existingDir =
     ''Duplicate package name '' @ [CHR 0x27] @ nm @ [CHR 0x27] @ '' at '' @ pkgDir
       @ '' and '' @ existingDir"

text \<open>\<^verbatim>\<open>const name = pkg.packageJson.name\<close>\<close>

definition packageName :: "Package \<Rightarrow> string" where
  "packageName pkg = PackageJSON.name (packageJson pkg)"

definition newNode :: "Package \<Rightarrow> PackageGraphNode" where
  "newNode pkg =
     \<lparr> dir = dir pkg,
       packageJson = packageJson pkg,
       name = packageName pkg,
       allLocalDependencies = [],
       publishedLocalDependencies = [],
       localDependencies = [],
       localDevDependencies = [],
       localOptionalDependencies = [] \<rparr>"

text \<open>The first loop: add all local packages to the graph, throwing on a name that is taken.\<close>

fun addPackages :: "Package list \<Rightarrow> PackageGraph \<Rightarrow> error + PackageGraph" where
  "addPackages [] graph = Inr graph"
| "addPackages (pkg # packages) graph =
     (case map_get graph (packageName pkg) of
        Some existingPkg \<Rightarrow>
          Inl (Error (duplicateMessage (packageName pkg) (dir pkg) (dir existingPkg)))
      | None \<Rightarrow> addPackages packages (map_set graph (packageName pkg) (newNode pkg)))"

text \<open>\<^verbatim>\<open>Object.keys(obj || {})\<close>\<close>

definition objectKeys :: "(string \<times> string) list option \<Rightarrow> string list" where
  "objectKeys obj = (case obj of None \<Rightarrow> [] | Some props \<Rightarrow> map fst props)"

text \<open>The bodies of the three inner loops of the second pass.\<close>

definition addDependency :: "PackageGraph \<Rightarrow> string \<Rightarrow> PackageGraphNode \<Rightarrow> PackageGraphNode" where
  "addDependency graph depName node =
     (case map_get graph depName of
        None \<Rightarrow> node
      | Some depPkg \<Rightarrow>
          node \<lparr> allLocalDependencies := map_set (allLocalDependencies node) depName (name depPkg),
                 publishedLocalDependencies :=
                   map_set (publishedLocalDependencies node) depName (name depPkg),
                 localDependencies := map_set (localDependencies node) depName (name depPkg) \<rparr>)"

definition addDevDependency :: "PackageGraph \<Rightarrow> string \<Rightarrow> PackageGraphNode \<Rightarrow> PackageGraphNode" where
  "addDevDependency graph depName node =
     (case map_get graph depName of
        None \<Rightarrow> node
      | Some depPkg \<Rightarrow>
          node \<lparr> allLocalDependencies := map_set (allLocalDependencies node) depName (name depPkg),
                 localDevDependencies :=
                   map_set (localDevDependencies node) depName (name depPkg) \<rparr>)"

definition addOptionalDependency ::
  "PackageGraph \<Rightarrow> string \<Rightarrow> PackageGraphNode \<Rightarrow> PackageGraphNode" where
  "addOptionalDependency graph depName node =
     (case map_get graph depName of
        None \<Rightarrow> node
      | Some depPkg \<Rightarrow>
          node \<lparr> allLocalDependencies := map_set (allLocalDependencies node) depName (name depPkg),
                 publishedLocalDependencies :=
                   map_set (publishedLocalDependencies node) depName (name depPkg),
                 localOptionalDependencies :=
                   map_set (localOptionalDependencies node) depName (name depPkg) \<rparr>)"

text \<open>
  The second loop visits every node of the graph and fills its neighbour maps. The
  lookups \<^verbatim>\<open>graph.get(depName)\<close> depend on the keys of the graph only, which the loop
  does not change, and the reference they return is the name of the node found.
\<close>

definition populate :: "PackageGraph \<Rightarrow> PackageGraphNode \<Rightarrow> PackageGraphNode" where
  "populate graph node =
     fold (addOptionalDependency graph) (objectKeys (optionalDependencies (packageJson node)))
       (fold (addDevDependency graph) (objectKeys (devDependencies (packageJson node)))
          (fold (addDependency graph) (objectKeys (dependencies (packageJson node))) node))"

definition fromPackages :: "Package list \<Rightarrow> error + PackageGraph" where
  "fromPackages packages =
     (case addPackages packages [] of
        Inl e \<Rightarrow> Inl e
      | Inr graph \<Rightarrow> Inr (map (\<lambda>(k, node). (k, populate graph node)) graph))"

section \<open>PackageGraph.collectPackageNames\<close>

definition notFoundMessage :: "string \<Rightarrow> string" where
  "notFoundMessage nm = ''Package '' @ [CHR 0x27] @ nm @ [CHR 0x27] @ '' not found''"

text \<open>
  The \<^verbatim>\<open>while\<close> loop. \<open>targets\<close> is the set under construction and \<open>searchNames\<close> the
  array used as a stack: \<^verbatim>\<open>pop\<close> takes the last element, \<^verbatim>\<open>push\<close> appends. The callback
  \<open>collectFn\<close> returns \<^verbatim>\<open>undefined\<close> (\<^term>\<open>None\<close>) or an iterable of names, which is spread
  into the arguments of \<^verbatim>\<open>push\<close> and so is a finite list. The list \<open>calls\<close>
  is the trace of the loop: the names of the nodes \<open>collectFn\<close> has been called with, in
  call order. The program does not store it; it is carried along so that the number of
  calls can be stated.
\<close>

function collectLoop ::
  "PackageGraph \<Rightarrow> (PackageGraphNode \<Rightarrow> string list option) \<Rightarrow> string set \<Rightarrow> string list \<Rightarrow>
     string list \<Rightarrow> error + (string set \<times> string list)" where
  "collectLoop graph collectFn targets calls searchNames =
     (if searchNames = [] then Inr (targets, calls)
      else if last searchNames \<in> targets
        then collectLoop graph collectFn targets calls (butlast searchNames)
      else (case map_get graph (last searchNames) of
              None \<Rightarrow> Inl (Error (notFoundMessage (last searchNames)))
            | Some node \<Rightarrow>
                collectLoop graph collectFn (insert (last searchNames) targets)
                  (calls @ [last searchNames])
                  (case collectFn node of
                     None \<Rightarrow> butlast searchNames
                   | Some collected \<Rightarrow> butlast searchNames @ collected)))"
  by pat_completeness auto

text \<open>
  Every iteration either adds a key of the graph to \<open>targets\<close> that was not in it, or
  leaves \<open>targets\<close> alone and shortens the stack.
\<close>

termination
proof (relation "measures
    [\<lambda>(graph, collectFn, targets, calls, searchNames). card (set (map_keys graph) - targets),
     \<lambda>(graph, collectFn, targets, calls, searchNames). length searchNames]")
  show "wf (measures
    [\<lambda>(graph, collectFn, targets, calls, searchNames). card (set (map_keys graph) - targets),
     \<lambda>(graph, collectFn, targets, calls, searchNames). length searchNames])"
    by simp
next
  fix graph :: PackageGraph and collectFn :: "PackageGraphNode \<Rightarrow> string list option"
    and targets :: "string set" and calls searchNames :: "string list"
  assume "searchNames \<noteq> []" "last searchNames \<in> targets"
  then show "((graph, collectFn, targets, calls, butlast searchNames),
              (graph, collectFn, targets, calls, searchNames))
      \<in> measures
    [\<lambda>(graph, collectFn, targets, calls, searchNames). card (set (map_keys graph) - targets),
     \<lambda>(graph, collectFn, targets, calls, searchNames). length searchNames]"
    by simp
next
  fix graph :: PackageGraph and collectFn :: "PackageGraphNode \<Rightarrow> string list option"
    and targets :: "string set" and calls searchNames :: "string list" and node
  assume new: "last searchNames \<notin> targets"
    and node: "map_get graph (last searchNames) = Some node"
  have "last searchNames \<in> set (map_keys graph)"
    using node by (auto simp: map_get_def map_keys_def dest: map_of_SomeD intro: rev_image_eqI)
  with new have mem: "last searchNames \<in> set (map_keys graph) - targets"
    by simp
  have eq: "set (map_keys graph) - insert (last searchNames) targets
      = (set (map_keys graph) - targets) - {last searchNames}"
    by auto
  have "card ((set (map_keys graph) - targets) - {last searchNames})
      < card (set (map_keys graph) - targets)"
    using mem by (intro card_Diff1_less) simp_all
  then have "card (set (map_keys graph) - insert (last searchNames) targets)
      < card (set (map_keys graph) - targets)"
    by (simp only: eq)
  then show "((graph, collectFn, insert (last searchNames) targets, calls @ [last searchNames],
               case collectFn node of None \<Rightarrow> butlast searchNames
               | Some collected \<Rightarrow> butlast searchNames @ collected),
              (graph, collectFn, targets, calls, searchNames))
      \<in> measures
    [\<lambda>(graph, collectFn, targets, calls, searchNames). card (set (map_keys graph) - targets),
     \<lambda>(graph, collectFn, targets, calls, searchNames). length searchNames]"
    by simp
qed

text \<open>The equation of the loop is unfolded by hand, one iteration at a time.\<close>

declare collectLoop.simps [simp del]

text \<open>
  \<^verbatim>\<open>collectPackageNames\<close> starts the loop with an empty set and a copy of the start names
  and returns the set.
\<close>

definition collectPackageNames ::
  "PackageGraph \<Rightarrow> string list \<Rightarrow> (PackageGraphNode \<Rightarrow> string list option) \<Rightarrow> error + string set" where
  "collectPackageNames graph startingPackageNames collectFn =
     (case collectLoop graph collectFn {} [] startingPackageNames of
        Inl e \<Rightarrow> Inl e
      | Inr (targets, calls) \<Rightarrow> Inr targets)"

text \<open>
  The names the search can come across: a start name, or a name that \<open>collectFn\<close> yields
  for the node of a name the search can come across.
\<close>

inductive reaches ::
  "PackageGraph \<Rightarrow> (PackageGraphNode \<Rightarrow> string list option) \<Rightarrow> string set \<Rightarrow> string \<Rightarrow> bool"
  for graph collectFn startNames where
    start: "x \<in> startNames \<Longrightarrow> reaches graph collectFn startNames x"
  | expand: "reaches graph collectFn startNames x \<Longrightarrow> map_get graph x = Some node \<Longrightarrow>
       collectFn node = Some collected \<Longrightarrow> y \<in> set collected \<Longrightarrow>
       reaches graph collectFn startNames y"

code_pred reaches .

section \<open>PackageGraph.listChangedPackages\<close>

text \<open>
  The list of changed files comes from git and is a parameter. The key of a package in
  \<open>dirMap\<close> is \<^verbatim>\<open>posixPath.normalize(relativePath(paths.targetRoot, pkg.dir)) + posixPath.sep\<close>.
  The path functions belong to the runtime and the target root to another module; the
  function \<open>relativeDir\<close> stands for the normalised path of a directory relative to the
  target root and is a parameter, the separator is \<open>''/''\<close>.
\<close>

definition dirMap ::
  "(string \<Rightarrow> string) \<Rightarrow> PackageGraph \<Rightarrow> (string, PackageGraphNode) js_map" where
  "dirMap relativeDir graph =
     map_from_entries (map (\<lambda>pkg. (relativeDir (dir pkg) @ ''/'', pkg)) (map_values graph))"

text \<open>Skip through changes that appear before our package dir.\<close>

function skipBefore :: "string list \<Rightarrow> string \<Rightarrow> nat \<Rightarrow> nat" where
  "skipBefore changedFiles packageDir searchIndex =
     (if searchIndex < length changedFiles \<and> changedFiles ! searchIndex < packageDir
      then skipBefore changedFiles packageDir (searchIndex + 1)
      else searchIndex)"
  by pat_completeness auto

termination
  by (relation "measure (\<lambda>(changedFiles, packageDir, searchIndex).
        length changedFiles - searchIndex)") auto

declare skipBefore.simps [simp del]

text \<open>
  \<^verbatim>\<open>changedFiles[searchIndex]?.startsWith(packageDir)\<close>: past the end of the array the
  element is \<^verbatim>\<open>undefined\<close> and the test is false.
\<close>

definition startsWithAt :: "string list \<Rightarrow> nat \<Rightarrow> string \<Rightarrow> bool" where
  "startsWithAt changedFiles searchIndex packageDir =
     (searchIndex < length changedFiles \<and> prefix packageDir (changedFiles ! searchIndex))"

text \<open>Skip through the rest of the changed files for the same package.\<close>

function skipSame :: "string list \<Rightarrow> string \<Rightarrow> nat \<Rightarrow> nat" where
  "skipSame changedFiles packageDir searchIndex =
     (if startsWithAt changedFiles searchIndex packageDir
      then skipSame changedFiles packageDir (searchIndex + 1)
      else searchIndex)"
  by pat_completeness auto

termination
  by (relation "measure (\<lambda>(changedFiles, packageDir, searchIndex).
        length changedFiles - searchIndex)") (auto simp: startsWithAt_def)

declare skipSame.simps [simp del]

text \<open>
  The body of the loop over the package directories. The state is the search index and
  the result array; what is pushed is the value of \<^verbatim>\<open>dirMap.get(packageDir)\<close>, which would
  be \<^verbatim>\<open>undefined\<close> (\<^term>\<open>None\<close>) for a key that is not in the map.
\<close>

definition checkPackageDir ::
  "(string, PackageGraphNode) js_map \<Rightarrow> string list \<Rightarrow> string \<Rightarrow>
     nat \<times> PackageGraphNode option list \<Rightarrow> nat \<times> PackageGraphNode option list" where
  "checkPackageDir dm changedFiles packageDir state =
     (case state of (searchIndex, result) \<Rightarrow>
        (if startsWithAt changedFiles (skipBefore changedFiles packageDir searchIndex) packageDir
         then (skipSame changedFiles packageDir
                 (skipBefore changedFiles packageDir searchIndex + 1),
               result @ [map_get dm packageDir])
         else (skipBefore changedFiles packageDir searchIndex, result)))"

definition listChangedPackages ::
  "(string \<Rightarrow> string) \<Rightarrow> PackageGraph \<Rightarrow> string list \<Rightarrow> PackageGraphNode option list" where
  "listChangedPackages relativeDir graph changedFiles =
     snd (fold (checkPackageDir (dirMap relativeDir graph) (sort changedFiles))
            (sort (map_keys (dirMap relativeDir graph))) (0, []))"

text \<open>
  The same pass, seen on the list of the files that the search index has not passed yet
  (\<open>drop searchIndex changedFiles\<close>): it returns the directories whose package is pushed.
  It is used to reason about the loop and is proved to agree with it.
\<close>

fun matchedDirs :: "string list \<Rightarrow> string list \<Rightarrow> string list" where
  "matchedDirs [] files = []"
| "matchedDirs (packageDir # packageDirs) files =
     (case dropWhile (\<lambda>f. f < packageDir) files of
        [] \<Rightarrow> matchedDirs packageDirs []
      | f # rest \<Rightarrow>
          if prefix packageDir f
          then packageDir # matchedDirs packageDirs (dropWhile (prefix packageDir) rest)
          else matchedDirs packageDirs (f # rest))"

text \<open>A package descriptor written out field by field, for the concrete cases below.\<close>

definition mkPackage ::
  "string \<Rightarrow> string \<Rightarrow> string list \<Rightarrow> string list \<Rightarrow> string list \<Rightarrow> Package" where
  "mkPackage nm d deps devDeps optDeps =
     \<lparr> dir = d,
       packageJson =
         \<lparr> PackageJSON.name = nm,
           dependencies = Some (map (\<lambda>k. (k, ''*'')) deps),
           devDependencies = Some (map (\<lambda>k. (k, ''*'')) devDeps),
           optionalDependencies = Some (map (\<lambda>k. (k, ''*'')) optDeps) \<rparr> \<rparr>"

text \<open>A graph node with its neighbour maps written out, and a small monorepo: \<open>a\<close> depends
  on \<open>b\<close> and on the external package \<open>ext\<close>, has \<open>c\<close> as a development and \<open>d\<close> as an
  optional dependency; \<open>b\<close> has \<open>a\<close> as a development dependency, which closes a cycle.\<close>

definition mkNode ::
  "Package \<Rightarrow> string list \<Rightarrow> string list \<Rightarrow> string list \<Rightarrow> string list \<Rightarrow> string list \<Rightarrow>
     PackageGraphNode" where
  "mkNode pkg allDeps published deps devDeps optDeps =
     \<lparr> dir = dir pkg,
       packageJson = packageJson pkg,
       name = packageName pkg,
       allLocalDependencies = map (\<lambda>k. (k, k)) allDeps,
       publishedLocalDependencies = map (\<lambda>k. (k, k)) published,
       localDependencies = map (\<lambda>k. (k, k)) deps,
       localDevDependencies = map (\<lambda>k. (k, k)) devDeps,
       localOptionalDependencies = map (\<lambda>k. (k, k)) optDeps \<rparr>"

definition examplePackages :: "Package list" where
  "examplePackages =
     [mkPackage ''a'' ''/r/pkg-a'' [''b'', ''ext''] [''c''] [''d''],
      mkPackage ''b'' ''/r/pkg-b'' [] [''a''] [],
      mkPackage ''c'' ''/r/pkg-c'' [''b''] [''b''] [],
      mkPackage ''d'' ''/r/pkg-d'' [] [] []]"

definition exampleGraph :: PackageGraph where
  "exampleGraph =
     [(''a'', mkNode (mkPackage ''a'' ''/r/pkg-a'' [''b'', ''ext''] [''c''] [''d''])
                [''b'', ''c'', ''d''] [''b'', ''d''] [''b''] [''c''] [''d'']),
      (''b'', mkNode (mkPackage ''b'' ''/r/pkg-b'' [] [''a''] []) [''a''] [] [] [''a''] []),
      (''c'', mkNode (mkPackage ''c'' ''/r/pkg-c'' [''b''] [''b''] []) [''b''] [''b''] [''b''] [''b''] []),
      (''d'', mkNode (mkPackage ''d'' ''/r/pkg-d'' [] [] []) [] [] [] [] [])]"

text \<open>
  For changed-package detection: the target root is \<open>/r\<close>, so that the relative path of a
  directory below it is the path without its first three characters, and that of the
  target root itself is \<open>.\<close>; a node without
  neighbours; a graph with a package nested in another, one with two siblings, and one
  with two packages in the same directory.
\<close>

definition relativeToRoot :: "string \<Rightarrow> string" where
  "relativeToRoot d = (if d = ''/r'' then ''.'' else drop (length ''/r/'') d)"

definition plainNode :: "string \<Rightarrow> string \<Rightarrow> PackageGraphNode" where
  "plainNode nm d = mkNode (mkPackage nm d [] [] []) [] [] [] [] []"

definition nestedGraph :: PackageGraph where
  "nestedGraph =
     [(''root'', plainNode ''root'' ''/r/pkg''), (''child'', plainNode ''child'' ''/r/pkg/sub'')]"

definition siblingGraph :: PackageGraph where
  "siblingGraph = [(''b'', plainNode ''b'' ''/r/pkg-b''), (''a'', plainNode ''a'' ''/r/pkg-a'')]"

definition sharedDirGraph :: PackageGraph where
  "sharedDirGraph = [(''a'', plainNode ''a'' ''/r/pkg''), (''b'', plainNode ''b'' ''/r/pkg'')]"

text \<open>
  Two callbacks for the traversal: one yields names that are not in the example graph,
  the other follows \<open>allLocalDependencies\<close>.
\<close>

definition lazyCollectFn :: "PackageGraphNode \<Rightarrow> string list option" where
  "lazyCollectFn node =
     (if name node = ''a'' then Some [''missing1'', ''b'']
      else if name node = ''b'' then Some [''missing2'']
      else None)"

definition allDependencies :: "PackageGraphNode \<Rightarrow> string list option" where
  "allDependencies node = Some (map_keys (allLocalDependencies node))"

section \<open>Properties of the map operations\<close>

lemma map_get_map_set:
  "map_get (map_set m k v) k' = (if k' = k then Some v else map_get m k')"
  by (induction m) (auto simp: map_get_def)

lemma map_of_map_set: "map_of (map_set m k v) = (map_of m)(k \<mapsto> v)"
  by (induction m) auto

lemma keys_map_set: "set (map fst (map_set m k v)) = insert k (set (map fst m))"
proof -
  have "set (map fst (map_set m k v)) = dom (map_of (map_set m k v))"
    by (simp add: dom_map_of_conv_image_fst)
  also have "\<dots> = insert k (dom (map_of m))"
    by (simp add: map_of_map_set)
  also have "\<dots> = insert k (set (map fst m))"
    by (simp add: dom_map_of_conv_image_fst)
  finally show ?thesis .
qed

lemma distinct_map_set:
  "distinct (map fst m) \<Longrightarrow> distinct (map fst (map_set m k v))"
proof (induction m)
  case Nil
  then show ?case by simp
next
  case (Cons e m)
  obtain k' v' where e: "e = (k', v')" by (cases e)
  show ?case
  proof (cases "k' = k")
    case True
    with Cons.prems show ?thesis by (simp add: e)
  next
    case False
    have "k' \<notin> set (map fst (map_set m k v))"
      using Cons.prems False by (simp add: e keys_map_set del: set_map)
    with Cons False show ?thesis by (simp add: e)
  qed
qed

section \<open>Graph construction: duplicate names\<close>

lemma addPackages_succeeds:
  "distinct (map packageName packages) \<Longrightarrow>
   \<forall>p \<in> set packages. map_get graph (packageName p) = None \<Longrightarrow>
   \<exists>g. addPackages packages graph = Inr g"
proof (induction packages arbitrary: graph)
  case Nil
  then show ?case by simp
next
  case (Cons pkg packages)
  let ?g = "map_set graph (packageName pkg) (newNode pkg)"
  have "\<forall>p \<in> set packages. map_get ?g (packageName p) = None"
  proof
    fix p assume p: "p \<in> set packages"
    then have "packageName p \<in> packageName ` set packages"
      by (rule imageI)
    then have "packageName p \<noteq> packageName pkg"
      using Cons.prems(1) by auto
    with p Cons.prems(2) show "map_get ?g (packageName p) = None"
      by (simp add: map_get_map_set)
  qed
  moreover have "distinct (map packageName packages)"
    using Cons.prems by simp
  ultimately obtain g where "addPackages packages ?g = Inr g"
    using Cons.IH by blast
  with Cons.prems show ?case by simp
qed

lemma addPackages_duplicate:
  "\<not> distinct (map packageName packages) \<or>
   (\<exists>p \<in> set packages. map_get graph (packageName p) \<noteq> None) \<Longrightarrow>
   \<exists>pre q post existingDir.
     packages = pre @ q # post \<and>
     addPackages packages graph =
       Inl (Error (duplicateMessage (packageName q) (dir q) existingDir)) \<and>
     ((\<exists>n. map_get graph (packageName q) = Some n \<and> dir n = existingDir) \<or>
      (\<exists>p \<in> set pre. packageName p = packageName q \<and> dir p = existingDir))"
proof (induction packages arbitrary: graph)
  case Nil
  then show ?case by simp
next
  case (Cons pkg packages)
  show ?case
  proof (cases "map_get graph (packageName pkg)")
    case (Some n)
    have "pkg # packages = [] @ pkg # packages" by simp
    moreover have "addPackages (pkg # packages) graph =
        Inl (Error (duplicateMessage (packageName pkg) (dir pkg) (dir n)))"
      using Some by simp
    ultimately show ?thesis using Some by blast
  next
    case None
    let ?g = "map_set graph (packageName pkg) (newNode pkg)"
    have step: "addPackages (pkg # packages) graph = addPackages packages ?g"
      using None by simp
    have "\<not> distinct (map packageName packages) \<or>
       (\<exists>p \<in> set packages. map_get ?g (packageName p) \<noteq> None)"
    proof (cases "distinct (map packageName packages)")
      case False
      then show ?thesis by simp
    next
      case True
      have "\<exists>p \<in> set packages. map_get ?g (packageName p) \<noteq> None"
      proof (cases "packageName pkg \<in> set (map packageName packages)")
        case True
        then obtain p where "p \<in> set packages" "packageName p = packageName pkg"
          by auto
        then show ?thesis by (auto simp: map_get_map_set)
      next
        case False
        with \<open>distinct (map packageName packages)\<close> Cons.prems
        obtain p where p: "p \<in> set (pkg # packages)" "map_get graph (packageName p) \<noteq> None"
          by auto
        with None have "p \<in> set packages" by auto
        with p show ?thesis by (auto simp: map_get_map_set)
      qed
      then show ?thesis by simp
    qed
    from Cons.IH [OF this] obtain pre q post existingDir where
      split: "packages = pre @ q # post" and
      res: "addPackages packages ?g =
        Inl (Error (duplicateMessage (packageName q) (dir q) existingDir))" and
      src: "(\<exists>n. map_get ?g (packageName q) = Some n \<and> dir n = existingDir) \<or>
        (\<exists>p \<in> set pre. packageName p = packageName q \<and> dir p = existingDir)"
      by blast
    have split': "pkg # packages = (pkg # pre) @ q # post"
      using split by simp
    have res': "addPackages (pkg # packages) graph =
        Inl (Error (duplicateMessage (packageName q) (dir q) existingDir))"
      using step res by simp
    have src': "(\<exists>n. map_get graph (packageName q) = Some n \<and> dir n = existingDir) \<or>
        (\<exists>p \<in> set (pkg # pre). packageName p = packageName q \<and> dir p = existingDir)"
    proof (cases "packageName q = packageName pkg")
      case True
      with src have "dir pkg = existingDir \<or>
          (\<exists>p \<in> set pre. packageName p = packageName q \<and> dir p = existingDir)"
        by (auto simp: map_get_map_set newNode_def)
      with True show ?thesis by auto
    next
      case False
      with src show ?thesis by (auto simp: map_get_map_set)
    qed
    show ?thesis
      apply (rule exI [of _ "pkg # pre"])
      apply (rule exI [of _ q])
      apply (rule exI [of _ post])
      apply (rule exI [of _ existingDir])
      using split' res' src' by blast
  qed
qed

text \<open>
  C2. Graph construction fails exactly on a list in which two descriptors share a name.
  With pairwise distinct names \<open>fromPackages\<close> returns a graph. Otherwise it throws an
  error for two descriptors \<open>p\<close> (the earlier) and \<open>q\<close> (the later) with the same name, and
  its message is the text \<^verbatim>\<open>Duplicate package name '<name>' at <dir of q> and <dir of p>\<close>:
  the shared name and both directories are parts of the message.
\<close>

theorem fromPackages_duplicate_name_error:
  "(distinct (map packageName packages) \<longrightarrow> (\<exists>graph. fromPackages packages = Inr graph)) \<and>
   (\<not> distinct (map packageName packages) \<longrightarrow>
      (\<exists>pre p q post msg.
         packages = pre @ q # post \<and> p \<in> set pre \<and> packageName p = packageName q \<and>
         fromPackages packages = Inl (Error msg) \<and>
         msg = ''Duplicate package name '' @ [CHR 0x27] @ packageName q @ [CHR 0x27] @ '' at ''
                 @ dir q @ '' and '' @ dir p \<and>
         sublist (packageName q) msg \<and> sublist (dir q) msg \<and> sublist (dir p) msg))"
proof (intro conjI impI)
  assume "distinct (map packageName packages)"
  then obtain g where "addPackages packages [] = Inr g"
    using addPackages_succeeds [of packages "[]"] by (auto simp: map_get_def)
  then show "\<exists>graph. fromPackages packages = Inr graph"
    by (simp add: fromPackages_def)
next
  assume "\<not> distinct (map packageName packages)"
  then have "\<exists>pre q post existingDir.
     packages = pre @ q # post \<and>
     addPackages packages [] =
       Inl (Error (duplicateMessage (packageName q) (dir q) existingDir)) \<and>
     ((\<exists>n. map_get ([]::PackageGraph) (packageName q) = Some n \<and> dir n = existingDir) \<or>
      (\<exists>p \<in> set pre. packageName p = packageName q \<and> dir p = existingDir))"
    by (rule addPackages_duplicate [OF disjI1])
  then obtain pre q post existingDir where
    split: "packages = pre @ q # post" and
    res: "addPackages packages [] =
      Inl (Error (duplicateMessage (packageName q) (dir q) existingDir))" and
    src: "(\<exists>n. map_get ([]::PackageGraph) (packageName q) = Some n \<and> dir n = existingDir) \<or>
      (\<exists>p \<in> set pre. packageName p = packageName q \<and> dir p = existingDir)"
    by (elim exE conjE)
  from src obtain p where p: "p \<in> set pre" "packageName p = packageName q" "dir p = existingDir"
    by (auto simp: map_get_def)
  let ?msg = "''Duplicate package name '' @ [CHR 0x27] @ packageName q @ [CHR 0x27] @ '' at ''
                 @ dir q @ '' and '' @ dir p"
  have run: "fromPackages packages = Inl (Error ?msg)"
    using res p by (simp add: fromPackages_def duplicateMessage_def)
  have s1: "sublist (packageName q) ?msg"
    unfolding sublist_def
    by (rule exI [of _ "''Duplicate package name '' @ [CHR 0x27]"],
        rule exI [of _ "[CHR 0x27] @ '' at '' @ dir q @ '' and '' @ dir p"]) simp
  have s2: "sublist (dir q) ?msg"
    unfolding sublist_def
    by (rule exI [of _ "''Duplicate package name '' @ [CHR 0x27] @ packageName q @ [CHR 0x27]
          @ '' at ''"],
        rule exI [of _ "'' and '' @ dir p"]) simp
  have s3: "sublist (dir p) ?msg"
    unfolding sublist_def
    by (rule exI [of _ "''Duplicate package name '' @ [CHR 0x27] @ packageName q @ [CHR 0x27]
          @ '' at '' @ dir q @ '' and ''"],
        rule exI [of _ "[]"]) simp
  from split p run s1 s2 s3
  have "packages = pre @ q # post \<and> p \<in> set pre \<and> packageName p = packageName q \<and>
         fromPackages packages = Inl (Error ?msg) \<and> ?msg = ?msg \<and>
         sublist (packageName q) ?msg \<and> sublist (dir q) ?msg \<and> sublist (dir p) ?msg"
    by simp
  then show "\<exists>pre p q post msg.
         packages = pre @ q # post \<and> p \<in> set pre \<and> packageName p = packageName q \<and>
         fromPackages packages = Inl (Error msg) \<and>
         msg = ''Duplicate package name '' @ [CHR 0x27] @ packageName q @ [CHR 0x27] @ '' at ''
                 @ dir q @ '' and '' @ dir p \<and>
         sublist (packageName q) msg \<and> sublist (dir q) msg \<and> sublist (dir p) msg"
    by (intro exI)
qed

text \<open>
  On two descriptors named \<open>a\<close>, at \<open>/r/x\<close> and at \<open>/r/y\<close>, the message reads
  \<^verbatim>\<open>Duplicate package name 'a' at /r/y and /r/x\<close>.
\<close>

theorem fromPackages_duplicate_name_error_witness:
  "(distinct (map packageName [mkPackage ''a'' ''/r/x'' [] [] [], mkPackage ''b'' ''/r/y'' [] [] []]) \<and>
    (\<exists>graph. fromPackages [mkPackage ''a'' ''/r/x'' [] [] [], mkPackage ''b'' ''/r/y'' [] [] []]
        = Inr graph)) \<and>
   (\<not> distinct (map packageName [mkPackage ''a'' ''/r/x'' [] [] [], mkPackage ''a'' ''/r/y'' [] [] []]) \<and>
    fromPackages [mkPackage ''a'' ''/r/x'' [] [] [], mkPackage ''a'' ''/r/y'' [] [] []] =
      Inl (Error (''Duplicate package name '' @ [CHR 0x27] @ ''a'' @ [CHR 0x27]
                    @ '' at /r/y and /r/x'')))"
proof -
  let ?x = "mkPackage ''a'' ''/r/x'' [] [] []"
  let ?y = "mkPackage ''a'' ''/r/y'' [] [] []"
  have d: "distinct (map packageName
      [mkPackage ''a'' ''/r/x'' [] [] [], mkPackage ''b'' ''/r/y'' [] [] []])"
    by (simp add: packageName_def mkPackage_def)
  have nd: "\<not> distinct (map packageName [?x, ?y])"
    by (simp add: packageName_def mkPackage_def)
  have ok: "\<exists>graph. fromPackages [mkPackage ''a'' ''/r/x'' [] [] [], mkPackage ''b'' ''/r/y'' [] [] []]
        = Inr graph"
    by (rule fromPackages_duplicate_name_error
          [of "[mkPackage ''a'' ''/r/x'' [] [] [], mkPackage ''b'' ''/r/y'' [] [] []]",
           THEN conjunct1, THEN mp, OF d])
  from nd fromPackages_duplicate_name_error [of "[?x, ?y]"]
  obtain pre p q post msg where
    split: "[?x, ?y] = pre @ q # post" and p: "p \<in> set pre" and
    run: "fromPackages [?x, ?y] = Inl (Error msg)" and
    msg: "msg = ''Duplicate package name '' @ [CHR 0x27] @ packageName q @ [CHR 0x27] @ '' at ''
                 @ dir q @ '' and '' @ dir p"
    by blast
  from p obtain z pre' where pre: "pre = z # pre'" by (cases pre) auto
  with split have z: "z = ?x" and rest: "[?y] = pre' @ q # post" by simp_all
  from rest have "pre' = []" "q = ?y"
    by (cases pre'; simp)+
  with p pre z have "p = ?x" by simp
  with \<open>q = ?y\<close> msg have "msg = ''Duplicate package name '' @ [CHR 0x27] @ ''a'' @ [CHR 0x27]
                    @ '' at /r/y and /r/x''"
    by (simp add: packageName_def mkPackage_def)
  with run have "fromPackages [?x, ?y] =
      Inl (Error (''Duplicate package name '' @ [CHR 0x27] @ ''a'' @ [CHR 0x27]
                    @ '' at /r/y and /r/x''))"
    by simp
  with d nd ok show ?thesis by simp
qed

section \<open>The second pass, key by key\<close>

lemma addDependency_fields:
  "packageJson (addDependency g k node) = packageJson node"
  "dir (addDependency g k node) = dir node"
  "name (addDependency g k node) = name node"
  "localDevDependencies (addDependency g k node) = localDevDependencies node"
  "localOptionalDependencies (addDependency g k node) = localOptionalDependencies node"
  by (simp_all add: addDependency_def split: option.split)

lemma addDependency_maps:
  "map_get (allLocalDependencies (addDependency g k node)) x =
     (if x = k \<and> map_get g k \<noteq> None then map_option name (map_get g k)
      else map_get (allLocalDependencies node) x)"
  "map_get (publishedLocalDependencies (addDependency g k node)) x =
     (if x = k \<and> map_get g k \<noteq> None then map_option name (map_get g k)
      else map_get (publishedLocalDependencies node) x)"
  "map_get (localDependencies (addDependency g k node)) x =
     (if x = k \<and> map_get g k \<noteq> None then map_option name (map_get g k)
      else map_get (localDependencies node) x)"
  by (auto simp: addDependency_def map_get_map_set split: option.split)

lemma fold_addDependency_fields:
  "packageJson (fold (addDependency g) ks node) = packageJson node \<and>
   dir (fold (addDependency g) ks node) = dir node \<and>
   name (fold (addDependency g) ks node) = name node \<and>
   localDevDependencies (fold (addDependency g) ks node) = localDevDependencies node \<and>
   localOptionalDependencies (fold (addDependency g) ks node) = localOptionalDependencies node"
  by (induction ks arbitrary: node) (simp_all add: addDependency_fields)

lemma fold_addDependency_maps:
  "map_get (allLocalDependencies (fold (addDependency g) ks node)) x =
     (if x \<in> set ks \<and> map_get g x \<noteq> None then map_option name (map_get g x)
      else map_get (allLocalDependencies node) x) \<and>
   map_get (publishedLocalDependencies (fold (addDependency g) ks node)) x =
     (if x \<in> set ks \<and> map_get g x \<noteq> None then map_option name (map_get g x)
      else map_get (publishedLocalDependencies node) x) \<and>
   map_get (localDependencies (fold (addDependency g) ks node)) x =
     (if x \<in> set ks \<and> map_get g x \<noteq> None then map_option name (map_get g x)
      else map_get (localDependencies node) x)"
  by (induction ks arbitrary: node) (auto simp: addDependency_maps)


lemma addDevDependency_fields:
  "packageJson (addDevDependency g k node) = packageJson node"
  "dir (addDevDependency g k node) = dir node"
  "name (addDevDependency g k node) = name node"
  "publishedLocalDependencies (addDevDependency g k node) = publishedLocalDependencies node"
  "localDependencies (addDevDependency g k node) = localDependencies node"
  "localOptionalDependencies (addDevDependency g k node) = localOptionalDependencies node"
  by (simp_all add: addDevDependency_def split: option.split)

lemma addDevDependency_maps:
  "map_get (allLocalDependencies (addDevDependency g k node)) x =
     (if x = k \<and> map_get g k \<noteq> None then map_option name (map_get g k)
      else map_get (allLocalDependencies node) x)"
  "map_get (localDevDependencies (addDevDependency g k node)) x =
     (if x = k \<and> map_get g k \<noteq> None then map_option name (map_get g k)
      else map_get (localDevDependencies node) x)"
  by (auto simp: addDevDependency_def map_get_map_set split: option.split)

lemma fold_addDevDependency_fields:
  "packageJson (fold (addDevDependency g) ks node) = packageJson node \<and>
   dir (fold (addDevDependency g) ks node) = dir node \<and>
   name (fold (addDevDependency g) ks node) = name node \<and>
   publishedLocalDependencies (fold (addDevDependency g) ks node)
     = publishedLocalDependencies node \<and>
   localDependencies (fold (addDevDependency g) ks node) = localDependencies node \<and>
   localOptionalDependencies (fold (addDevDependency g) ks node)
     = localOptionalDependencies node"
  by (induction ks arbitrary: node) (simp_all add: addDevDependency_fields)

lemma fold_addDevDependency_maps:
  "map_get (allLocalDependencies (fold (addDevDependency g) ks node)) x =
     (if x \<in> set ks \<and> map_get g x \<noteq> None then map_option name (map_get g x)
      else map_get (allLocalDependencies node) x) \<and>
   map_get (localDevDependencies (fold (addDevDependency g) ks node)) x =
     (if x \<in> set ks \<and> map_get g x \<noteq> None then map_option name (map_get g x)
      else map_get (localDevDependencies node) x)"
  by (induction ks arbitrary: node) (auto simp: addDevDependency_maps)

lemma addOptionalDependency_fields:
  "packageJson (addOptionalDependency g k node) = packageJson node"
  "dir (addOptionalDependency g k node) = dir node"
  "name (addOptionalDependency g k node) = name node"
  "localDependencies (addOptionalDependency g k node) = localDependencies node"
  "localDevDependencies (addOptionalDependency g k node) = localDevDependencies node"
  by (simp_all add: addOptionalDependency_def split: option.split)

lemma addOptionalDependency_maps:
  "map_get (allLocalDependencies (addOptionalDependency g k node)) x =
     (if x = k \<and> map_get g k \<noteq> None then map_option name (map_get g k)
      else map_get (allLocalDependencies node) x)"
  "map_get (publishedLocalDependencies (addOptionalDependency g k node)) x =
     (if x = k \<and> map_get g k \<noteq> None then map_option name (map_get g k)
      else map_get (publishedLocalDependencies node) x)"
  "map_get (localOptionalDependencies (addOptionalDependency g k node)) x =
     (if x = k \<and> map_get g k \<noteq> None then map_option name (map_get g k)
      else map_get (localOptionalDependencies node) x)"
  by (auto simp: addOptionalDependency_def map_get_map_set split: option.split)

lemma fold_addOptionalDependency_fields:
  "packageJson (fold (addOptionalDependency g) ks node) = packageJson node \<and>
   dir (fold (addOptionalDependency g) ks node) = dir node \<and>
   name (fold (addOptionalDependency g) ks node) = name node \<and>
   localDependencies (fold (addOptionalDependency g) ks node) = localDependencies node \<and>
   localDevDependencies (fold (addOptionalDependency g) ks node) = localDevDependencies node"
  by (induction ks arbitrary: node) (simp_all add: addOptionalDependency_fields)

lemma fold_addOptionalDependency_maps:
  "map_get (allLocalDependencies (fold (addOptionalDependency g) ks node)) x =
     (if x \<in> set ks \<and> map_get g x \<noteq> None then map_option name (map_get g x)
      else map_get (allLocalDependencies node) x) \<and>
   map_get (publishedLocalDependencies (fold (addOptionalDependency g) ks node)) x =
     (if x \<in> set ks \<and> map_get g x \<noteq> None then map_option name (map_get g x)
      else map_get (publishedLocalDependencies node) x) \<and>
   map_get (localOptionalDependencies (fold (addOptionalDependency g) ks node)) x =
     (if x \<in> set ks \<and> map_get g x \<noteq> None then map_option name (map_get g x)
      else map_get (localOptionalDependencies node) x)"
  by (induction ks arbitrary: node) (auto simp: addOptionalDependency_maps)

text \<open>
  The neighbour maps of a populated node, key by key. \<open>D\<close>, \<open>V\<close> and \<open>O\<close> are the names
  listed in the three dependency objects of the node's package.
\<close>

lemma populate_packageJson: "packageJson (populate g node) = packageJson node"
  by (simp add: populate_def fold_addDependency_fields fold_addDevDependency_fields
      fold_addOptionalDependency_fields)

lemma populate_localDependencies:
  "map_get (localDependencies (populate g node)) x =
     (if x \<in> set (objectKeys (dependencies (packageJson node))) \<and> map_get g x \<noteq> None
      then map_option name (map_get g x)
      else map_get (localDependencies node) x)"
  by (simp add: populate_def fold_addDependency_fields fold_addDevDependency_fields
      fold_addOptionalDependency_fields fold_addDependency_maps)

lemma populate_localDevDependencies:
  "map_get (localDevDependencies (populate g node)) x =
     (if x \<in> set (objectKeys (devDependencies (packageJson node))) \<and> map_get g x \<noteq> None
      then map_option name (map_get g x)
      else map_get (localDevDependencies node) x)"
  by (auto simp: populate_def fold_addDependency_fields fold_addDevDependency_fields
      fold_addOptionalDependency_fields fold_addDevDependency_maps)

lemma populate_localOptionalDependencies:
  "map_get (localOptionalDependencies (populate g node)) x =
     (if x \<in> set (objectKeys (optionalDependencies (packageJson node))) \<and> map_get g x \<noteq> None
      then map_option name (map_get g x)
      else map_get (localOptionalDependencies node) x)"
  by (auto simp: populate_def fold_addDependency_fields fold_addDevDependency_fields
      fold_addOptionalDependency_fields fold_addOptionalDependency_maps)

lemma populate_allLocalDependencies:
  "map_get (allLocalDependencies (populate g node)) x =
     (if (x \<in> set (objectKeys (dependencies (packageJson node))) \<or>
          x \<in> set (objectKeys (devDependencies (packageJson node))) \<or>
          x \<in> set (objectKeys (optionalDependencies (packageJson node)))) \<and> map_get g x \<noteq> None
      then map_option name (map_get g x)
      else map_get (allLocalDependencies node) x)"
  by (simp add: populate_def fold_addDependency_fields fold_addDevDependency_fields
      fold_addOptionalDependency_fields fold_addDependency_maps fold_addDevDependency_maps
      fold_addOptionalDependency_maps)

lemma populate_publishedLocalDependencies:
  "map_get (publishedLocalDependencies (populate g node)) x =
     (if (x \<in> set (objectKeys (dependencies (packageJson node))) \<or>
          x \<in> set (objectKeys (optionalDependencies (packageJson node)))) \<and> map_get g x \<noteq> None
      then map_option name (map_get g x)
      else map_get (publishedLocalDependencies node) x)"
  by (simp add: populate_def fold_addDependency_fields fold_addDevDependency_fields
      fold_addOptionalDependency_fields fold_addDependency_maps fold_addDevDependency_maps
      fold_addOptionalDependency_maps)

text \<open>The nodes and keys of the graph after the first loop, and of the finished graph.\<close>

lemma set_map_set_subset: "set (map_set m k v) \<subseteq> insert (k, v) (set m)"
  by (induction m) (auto split: if_splits)

lemma map_keys_iff: "x \<in> set (map_keys m) \<longleftrightarrow> map_get m x \<noteq> None"
  by (simp add: map_keys_def map_get_def map_of_eq_None_iff)

lemma addPackages_entries:
  "addPackages packages graph = Inr g \<Longrightarrow> (k, n) \<in> set g \<Longrightarrow>
   (k, n) \<in> set graph \<or> (\<exists>p \<in> set packages. k = packageName p \<and> n = newNode p)"
proof (induction packages arbitrary: graph)
  case Nil
  then show ?case by simp
next
  case (Cons pkg packages)
  from Cons.prems(1) have run: "addPackages packages
      (map_set graph (packageName pkg) (newNode pkg)) = Inr g"
    by (simp split: option.splits)
  from Cons.IH [OF run Cons.prems(2)]
  have "(k, n) \<in> set (map_set graph (packageName pkg) (newNode pkg)) \<or>
      (\<exists>p \<in> set packages. k = packageName p \<and> n = newNode p)" .
  then show ?case
    using set_map_set_subset [of graph "packageName pkg" "newNode pkg"] by auto
qed

lemma addPackages_keys:
  "addPackages packages graph = Inr g \<Longrightarrow>
   set (map_keys g) = set (map_keys graph) \<union> packageName ` set packages"
proof (induction packages arbitrary: graph)
  case Nil
  then show ?case by simp
next
  case (Cons pkg packages)
  from Cons.prems have run: "addPackages packages
      (map_set graph (packageName pkg) (newNode pkg)) = Inr g"
    by (simp split: option.splits)
  from Cons.IH [OF run] show ?case
    by (simp add: map_keys_def keys_map_set del: set_map)
qed

lemma fromPackages_node:
  assumes "fromPackages packages = Inr graph" and "(k, node) \<in> set graph"
  shows "\<exists>g p. addPackages packages [] = Inr g \<and> p \<in> set packages \<and> k = packageName p \<and>
           node = populate g (newNode p) \<and>
           (\<forall>x. map_get g x \<noteq> None \<longleftrightarrow> x \<in> packageName ` set packages)"
proof -
  from assms(1) obtain g where g: "addPackages packages [] = Inr g"
      and graph: "graph = map (\<lambda>(k, node). (k, populate g node)) g"
    by (auto simp: fromPackages_def split: sum.splits)
  from assms(2) graph obtain n where n: "(k, n) \<in> set g" and node: "node = populate g n"
    by auto
  from addPackages_entries [OF g n] obtain p where
    p: "p \<in> set packages" "k = packageName p" "n = newNode p"
    by auto
  have keys: "set (map_keys g) = packageName ` set packages"
    using addPackages_keys [OF g] by (simp add: map_keys_def)
  have "\<forall>x. map_get g x \<noteq> None \<longleftrightarrow> x \<in> packageName ` set packages"
    by (simp add: keys [symmetric] map_keys_iff)
  with g p node show ?thesis by blast
qed


lemma newNode_maps:
  "map_get (allLocalDependencies (newNode p)) x = None"
  "map_get (publishedLocalDependencies (newNode p)) x = None"
  "map_get (localDependencies (newNode p)) x = None"
  "map_get (localDevDependencies (newNode p)) x = None"
  "map_get (localOptionalDependencies (newNode p)) x = None"
  "packageJson (newNode p) = packageJson p"
  by (simp_all add: newNode_def map_get_def)

lemma keys_eq_iff:
  "set (map_keys m) = A \<longleftrightarrow> (\<forall>x. map_get m x \<noteq> None \<longleftrightarrow> x \<in> A)"
  using map_keys_iff [of _ m] by blast

section \<open>Graph construction: the neighbour maps\<close>

lemma fromPackages_example: "fromPackages examplePackages = Inr exampleGraph"
  by (simp add: fromPackages_def examplePackages_def exampleGraph_def mkPackage_def mkNode_def
      packageName_def newNode_def map_get_def populate_def objectKeys_def addDependency_def
      addDevDependency_def addOptionalDependency_def)


text \<open>
  C3. For every node of a graph built by \<open>fromPackages\<close>, \<open>allLocalDependencies\<close> is the
  union of \<open>localDependencies\<close>, \<open>localDevDependencies\<close> and \<open>localOptionalDependencies\<close>:
  the key sets agree, and the maps agree as sets of (key, node reference) pairs.
\<close>

theorem allLocalDependencies_is_union:
  assumes "fromPackages packages = Inr graph" and "(k, node) \<in> set graph"
  shows "set (map_keys (allLocalDependencies node)) =
           set (map_keys (localDependencies node)) \<union>
           set (map_keys (localDevDependencies node)) \<union>
           set (map_keys (localOptionalDependencies node)) \<and>
         Map.graph (map_get (allLocalDependencies node)) =
           Map.graph (map_get (localDependencies node)) \<union>
           Map.graph (map_get (localDevDependencies node)) \<union>
           Map.graph (map_get (localOptionalDependencies node))"
proof -
  from fromPackages_node [OF assms] obtain g p where
    node: "node = populate g (newNode p)"
    by blast
  have pt: "\<And>x v. map_get (allLocalDependencies node) x = Some v \<longleftrightarrow>
      map_get (localDependencies node) x = Some v \<or>
      map_get (localDevDependencies node) x = Some v \<or>
      map_get (localOptionalDependencies node) x = Some v"
    by (auto simp: node populate_allLocalDependencies populate_localDependencies
        populate_localDevDependencies populate_localOptionalDependencies newNode_maps)
  have "Map.graph (map_get (allLocalDependencies node)) =
           Map.graph (map_get (localDependencies node)) \<union>
           Map.graph (map_get (localDevDependencies node)) \<union>
           Map.graph (map_get (localOptionalDependencies node))"
    by (auto simp: Map.graph_def pt)
  moreover have "set (map_keys (allLocalDependencies node)) =
           set (map_keys (localDependencies node)) \<union>
           set (map_keys (localDevDependencies node)) \<union>
           set (map_keys (localOptionalDependencies node))"
    by (auto simp: map_keys_iff pt)
  ultimately show ?thesis by simp
qed


theorem allLocalDependencies_is_union_witness:
  "fromPackages examplePackages = Inr exampleGraph \<and>
   (fst (hd exampleGraph), snd (hd exampleGraph)) \<in> set exampleGraph \<and>
   set (map_keys (allLocalDependencies (snd (hd exampleGraph)))) =
     set (map_keys (localDependencies (snd (hd exampleGraph)))) \<union>
     set (map_keys (localDevDependencies (snd (hd exampleGraph)))) \<union>
     set (map_keys (localOptionalDependencies (snd (hd exampleGraph)))) \<and>
   Map.graph (map_get (allLocalDependencies (snd (hd exampleGraph)))) =
     Map.graph (map_get (localDependencies (snd (hd exampleGraph)))) \<union>
     Map.graph (map_get (localDevDependencies (snd (hd exampleGraph)))) \<union>
     Map.graph (map_get (localOptionalDependencies (snd (hd exampleGraph))))"
proof -
  have h: "(fst (hd exampleGraph), snd (hd exampleGraph)) \<in> set exampleGraph"
    by (simp add: exampleGraph_def)
  show ?thesis
    using h fromPackages_example allLocalDependencies_is_union [OF fromPackages_example h]
    by simp
qed

text \<open>
  C4. For every node of a graph built by \<open>fromPackages\<close>, \<open>publishedLocalDependencies\<close> is
  the union of \<open>localDependencies\<close> and \<open>localOptionalDependencies\<close>, and a name listed only
  in the \<open>devDependencies\<close> of the node's descriptor is not one of its keys.
\<close>

theorem publishedLocalDependencies_is_union:
  assumes "fromPackages packages = Inr graph" and "(k, node) \<in> set graph"
  shows "set (map_keys (publishedLocalDependencies node)) =
           set (map_keys (localDependencies node)) \<union>
           set (map_keys (localOptionalDependencies node)) \<and>
         Map.graph (map_get (publishedLocalDependencies node)) =
           Map.graph (map_get (localDependencies node)) \<union>
           Map.graph (map_get (localOptionalDependencies node)) \<and>
         (\<exists>p \<in> set packages. packageName p = k \<and> packageJson node = packageJson p \<and>
            (\<forall>d. d \<in> set (objectKeys (devDependencies (packageJson p))) \<and>
                 d \<notin> set (objectKeys (dependencies (packageJson p))) \<and>
                 d \<notin> set (objectKeys (optionalDependencies (packageJson p))) \<longrightarrow>
                 d \<notin> set (map_keys (publishedLocalDependencies node))))"
proof -
  from fromPackages_node [OF assms] obtain g p where
    p: "p \<in> set packages" "k = packageName p" and
    node: "node = populate g (newNode p)"
    by blast
  have pt: "\<And>x v. map_get (publishedLocalDependencies node) x = Some v \<longleftrightarrow>
      map_get (localDependencies node) x = Some v \<or>
      map_get (localOptionalDependencies node) x = Some v"
    by (auto simp: node populate_publishedLocalDependencies populate_localDependencies
        populate_localOptionalDependencies newNode_maps)
  have g: "Map.graph (map_get (publishedLocalDependencies node)) =
           Map.graph (map_get (localDependencies node)) \<union>
           Map.graph (map_get (localOptionalDependencies node))"
    by (auto simp: Map.graph_def pt)
  have ks: "set (map_keys (publishedLocalDependencies node)) =
           set (map_keys (localDependencies node)) \<union>
           set (map_keys (localOptionalDependencies node))"
    by (auto simp: map_keys_iff pt)
  have pj: "packageJson node = packageJson p"
    by (simp add: node populate_packageJson newNode_maps)
  have dev: "\<forall>d. d \<in> set (objectKeys (devDependencies (packageJson p))) \<and>
                 d \<notin> set (objectKeys (dependencies (packageJson p))) \<and>
                 d \<notin> set (objectKeys (optionalDependencies (packageJson p))) \<longrightarrow>
                 d \<notin> set (map_keys (publishedLocalDependencies node))"
    by (simp add: map_keys_iff node populate_publishedLocalDependencies newNode_maps)
  from p pj dev have "\<exists>p \<in> set packages. packageName p = k \<and> packageJson node = packageJson p \<and>
            (\<forall>d. d \<in> set (objectKeys (devDependencies (packageJson p))) \<and>
                 d \<notin> set (objectKeys (dependencies (packageJson p))) \<and>
                 d \<notin> set (objectKeys (optionalDependencies (packageJson p))) \<longrightarrow>
                 d \<notin> set (map_keys (publishedLocalDependencies node)))"
    by blast
  with g ks show ?thesis by simp
qed

theorem publishedLocalDependencies_is_union_witness:
  "fromPackages examplePackages = Inr exampleGraph \<and>
   (fst (hd exampleGraph), snd (hd exampleGraph)) \<in> set exampleGraph \<and>
   set (map_keys (publishedLocalDependencies (snd (hd exampleGraph)))) =
     set (map_keys (localDependencies (snd (hd exampleGraph)))) \<union>
     set (map_keys (localOptionalDependencies (snd (hd exampleGraph)))) \<and>
   Map.graph (map_get (publishedLocalDependencies (snd (hd exampleGraph)))) =
     Map.graph (map_get (localDependencies (snd (hd exampleGraph)))) \<union>
     Map.graph (map_get (localOptionalDependencies (snd (hd exampleGraph)))) \<and>
   (\<exists>p \<in> set examplePackages. packageName p = fst (hd exampleGraph) \<and>
      packageJson (snd (hd exampleGraph)) = packageJson p \<and>
      (\<forall>d. d \<in> set (objectKeys (devDependencies (packageJson p))) \<and>
           d \<notin> set (objectKeys (dependencies (packageJson p))) \<and>
           d \<notin> set (objectKeys (optionalDependencies (packageJson p))) \<longrightarrow>
           d \<notin> set (map_keys (publishedLocalDependencies (snd (hd exampleGraph))))))"
proof -
  have h: "(fst (hd exampleGraph), snd (hd exampleGraph)) \<in> set exampleGraph"
    by (simp add: exampleGraph_def)
  show ?thesis
    by (rule conjI [OF fromPackages_example
          conjI [OF h publishedLocalDependencies_is_union [OF fromPackages_example h]]])
qed

text \<open>
  C5. For descriptors with pairwise distinct names the graph is built, and every key of
  each of the five neighbour maps of each node is the name of a descriptor of the input;
  a name without a descriptor is in none of the five maps.
\<close>

theorem neighbour_keys_are_package_names:
  assumes "distinct (map packageName packages)"
  shows "\<exists>graph. fromPackages packages = Inr graph \<and>
           (\<forall>(k, node) \<in> set graph.
              set (map_keys (allLocalDependencies node)) \<subseteq> packageName ` set packages \<and>
              set (map_keys (publishedLocalDependencies node)) \<subseteq> packageName ` set packages \<and>
              set (map_keys (localDependencies node)) \<subseteq> packageName ` set packages \<and>
              set (map_keys (localDevDependencies node)) \<subseteq> packageName ` set packages \<and>
              set (map_keys (localOptionalDependencies node)) \<subseteq> packageName ` set packages \<and>
              (\<forall>d. d \<notin> packageName ` set packages \<longrightarrow>
                 map_get (allLocalDependencies node) d = None \<and>
                 map_get (publishedLocalDependencies node) d = None \<and>
                 map_get (localDependencies node) d = None \<and>
                 map_get (localDevDependencies node) d = None \<and>
                 map_get (localOptionalDependencies node) d = None))"
proof -
  from assms obtain g0 where g0: "addPackages packages [] = Inr g0"
    using addPackages_succeeds [of packages "[]"] by (auto simp: map_get_def)
  then obtain graph where graph: "fromPackages packages = Inr graph"
    by (simp add: fromPackages_def)
  have "set (map_keys (allLocalDependencies node)) \<subseteq> packageName ` set packages \<and>
        set (map_keys (publishedLocalDependencies node)) \<subseteq> packageName ` set packages \<and>
        set (map_keys (localDependencies node)) \<subseteq> packageName ` set packages \<and>
        set (map_keys (localDevDependencies node)) \<subseteq> packageName ` set packages \<and>
        set (map_keys (localOptionalDependencies node)) \<subseteq> packageName ` set packages \<and>
        (\<forall>d. d \<notin> packageName ` set packages \<longrightarrow>
           map_get (allLocalDependencies node) d = None \<and>
           map_get (publishedLocalDependencies node) d = None \<and>
           map_get (localDependencies node) d = None \<and>
           map_get (localDevDependencies node) d = None \<and>
           map_get (localOptionalDependencies node) d = None)"
    if "(k, node) \<in> set graph" for k node
  proof -
    from fromPackages_node [OF graph that] obtain g p where
      node: "node = populate g (newNode p)" and
      keys: "\<forall>x. map_get g x \<noteq> None \<longleftrightarrow> x \<in> packageName ` set packages"
      by blast
    have absent: "\<forall>d. d \<notin> packageName ` set packages \<longrightarrow>
           map_get (allLocalDependencies node) d = None \<and>
           map_get (publishedLocalDependencies node) d = None \<and>
           map_get (localDependencies node) d = None \<and>
           map_get (localDevDependencies node) d = None \<and>
           map_get (localOptionalDependencies node) d = None"
      using keys
      by (simp add: node populate_allLocalDependencies populate_publishedLocalDependencies
          populate_localDependencies populate_localDevDependencies
          populate_localOptionalDependencies newNode_maps)
    then have "set (map_keys (allLocalDependencies node)) \<subseteq> packageName ` set packages"
        "set (map_keys (publishedLocalDependencies node)) \<subseteq> packageName ` set packages"
        "set (map_keys (localDependencies node)) \<subseteq> packageName ` set packages"
        "set (map_keys (localDevDependencies node)) \<subseteq> packageName ` set packages"
        "set (map_keys (localOptionalDependencies node)) \<subseteq> packageName ` set packages"
      by (auto simp: map_keys_iff)
    with absent show ?thesis by simp
  qed
  with graph show ?thesis by blast
qed


theorem neighbour_keys_are_package_names_witness:
  "distinct (map packageName examplePackages) \<and>
   (\<exists>graph. fromPackages examplePackages = Inr graph \<and>
      (\<forall>(k, node) \<in> set graph.
         set (map_keys (allLocalDependencies node)) \<subseteq> packageName ` set examplePackages \<and>
         set (map_keys (publishedLocalDependencies node)) \<subseteq> packageName ` set examplePackages \<and>
         set (map_keys (localDependencies node)) \<subseteq> packageName ` set examplePackages \<and>
         set (map_keys (localDevDependencies node)) \<subseteq> packageName ` set examplePackages \<and>
         set (map_keys (localOptionalDependencies node)) \<subseteq> packageName ` set examplePackages \<and>
         (\<forall>d. d \<notin> packageName ` set examplePackages \<longrightarrow>
            map_get (allLocalDependencies node) d = None \<and>
            map_get (publishedLocalDependencies node) d = None \<and>
            map_get (localDependencies node) d = None \<and>
            map_get (localDevDependencies node) d = None \<and>
            map_get (localOptionalDependencies node) d = None)))"
proof -
  have h: "distinct (map packageName examplePackages)"
    by (simp add: examplePackages_def packageName_def mkPackage_def)
  show ?thesis
    using h neighbour_keys_are_package_names [OF h] by simp
qed

section \<open>The traversal\<close>

lemma collectLoop_empty: "collectLoop graph collectFn targets calls [] = Inr (targets, calls)"
  by (simp add: collectLoop.simps)

lemma collectLoop_seen:
  "searchNames \<noteq> [] \<Longrightarrow> last searchNames \<in> targets \<Longrightarrow>
   collectLoop graph collectFn targets calls searchNames =
     collectLoop graph collectFn targets calls (butlast searchNames)"
  by (subst collectLoop.simps) simp

lemma collectLoop_missing:
  "searchNames \<noteq> [] \<Longrightarrow> last searchNames \<notin> targets \<Longrightarrow>
   map_get graph (last searchNames) = None \<Longrightarrow>
   collectLoop graph collectFn targets calls searchNames =
     Inl (Error (notFoundMessage (last searchNames)))"
  by (subst collectLoop.simps) simp

lemma collectLoop_visit:
  "searchNames \<noteq> [] \<Longrightarrow> last searchNames \<notin> targets \<Longrightarrow>
   map_get graph (last searchNames) = Some node \<Longrightarrow>
   collectLoop graph collectFn targets calls searchNames =
     collectLoop graph collectFn (insert (last searchNames) targets)
       (calls @ [last searchNames])
       (case collectFn node of
          None \<Rightarrow> butlast searchNames
        | Some collected \<Rightarrow> butlast searchNames @ collected)"
  by (subst collectLoop.simps) simp

text \<open>Soundness: with a set \<open>R\<close> closed under expansion that holds the stack and the
  targets, the result stays inside \<open>R\<close> and an error names a member of \<open>R\<close> without node.\<close>

lemma collectLoop_sound:
  "\<forall>x \<in> R. \<forall>node collected. map_get graph x = Some node \<longrightarrow>
      collectFn node = Some collected \<longrightarrow> set collected \<subseteq> R \<Longrightarrow>
   targets \<subseteq> R \<Longrightarrow> set searchNames \<subseteq> R \<Longrightarrow> \<forall>x \<in> targets. map_get graph x \<noteq> None \<Longrightarrow>
    (case collectLoop graph collectFn targets calls searchNames of
       Inl e \<Rightarrow> \<exists>x \<in> R. map_get graph x = None \<and> e = Error (notFoundMessage x)
     | Inr (T, c) \<Rightarrow> T \<subseteq> R \<and> (\<forall>x \<in> T. map_get graph x \<noteq> None))"
proof (induction graph collectFn targets calls searchNames rule: collectLoop.induct)
  case (1 graph collectFn targets calls searchNames)
  note closed = "1.prems"(1)
  show ?case
  proof (cases "searchNames = []")
    case True
    with "1.prems" show ?thesis by (simp add: collectLoop_empty)
  next
    case ne: False
    then have lastR: "last searchNames \<in> R"
      using "1.prems"(3) last_in_set by blast
    have butlastR: "set (butlast searchNames) \<subseteq> R"
      using "1.prems"(3) by (meson in_set_butlastD subsetD subsetI)
    show ?thesis
    proof (cases "last searchNames \<in> targets")
      case True
      from "1.IH"(1) [OF ne True closed "1.prems"(2) butlastR "1.prems"(4)]
      show ?thesis by (simp add: collectLoop_seen [OF ne True])
    next
      case new: False
      show ?thesis
      proof (cases "map_get graph (last searchNames)")
        case None
        with lastR show ?thesis
          by (auto simp: collectLoop_missing [OF ne new None])
      next
        case (Some node)
        let ?stack = "case collectFn node of None \<Rightarrow> butlast searchNames
          | Some collected \<Rightarrow> butlast searchNames @ collected"
        have "\<forall>collected. collectFn node = Some collected \<longrightarrow> set collected \<subseteq> R"
          using closed lastR Some by blast
        then have stackR: "set ?stack \<subseteq> R"
          using butlastR by (auto split: option.splits)
        have tR: "insert (last searchNames) targets \<subseteq> R"
          using lastR "1.prems"(2) by simp
        have tG: "\<forall>x \<in> insert (last searchNames) targets. map_get graph x \<noteq> None"
          using Some "1.prems"(4) by simp
        from "1.IH"(2) [OF ne new Some closed tR stackR tG]
        show ?thesis by (simp add: collectLoop_visit [OF ne new Some])
      qed
    qed
  qed
qed

text \<open>Closure: the result holds the targets and the stack it started from, and the
  expansion of every name added on the way.\<close>

lemma collectLoop_closed:
  "collectLoop graph collectFn targets calls searchNames = Inr (T, c) \<Longrightarrow>
   targets \<subseteq> T \<and> set searchNames \<subseteq> T \<and>
   (\<forall>x \<in> T - targets. \<forall>node collected. map_get graph x = Some node \<longrightarrow>
      collectFn node = Some collected \<longrightarrow> set collected \<subseteq> T)"
proof (induction graph collectFn targets calls searchNames rule: collectLoop.induct)
  case (1 graph collectFn targets calls searchNames)
  show ?case
  proof (cases "searchNames = []")
    case True
    with "1.prems" show ?thesis by (simp add: collectLoop_empty)
  next
    case ne: False
    have sn: "set searchNames = insert (last searchNames) (set (butlast searchNames))"
      using ne by (metis append_butlast_last_id list.simps(15) rotate1.simps(2) set_rotate1)
    show ?thesis
    proof (cases "last searchNames \<in> targets")
      case True
      from "1.prems" have "collectLoop graph collectFn targets calls (butlast searchNames) = Inr (T, c)"
        by (simp add: collectLoop_seen [OF ne True])
      from "1.IH"(1) [OF ne True this] True show ?thesis
        by (auto simp: sn)
    next
      case new: False
      show ?thesis
      proof (cases "map_get graph (last searchNames)")
        case None
        with "1.prems" show ?thesis
          by (simp add: collectLoop_missing [OF ne new None])
      next
        case (Some node)
        let ?stack = "case collectFn node of None \<Rightarrow> butlast searchNames
          | Some collected \<Rightarrow> butlast searchNames @ collected"
        from "1.prems" have "collectLoop graph collectFn (insert (last searchNames) targets)
            (calls @ [last searchNames]) ?stack = Inr (T, c)"
          by (simp add: collectLoop_visit [OF ne new Some])
        from "1.IH"(2) [OF ne new Some this]
        have ih: "insert (last searchNames) targets \<subseteq> T" "set ?stack \<subseteq> T"
          "\<forall>x \<in> T - insert (last searchNames) targets. \<forall>node collected.
             map_get graph x = Some node \<longrightarrow> collectFn node = Some collected \<longrightarrow> set collected \<subseteq> T"
          by simp_all
        have bl: "set (butlast searchNames) \<subseteq> T"
          using ih(2) by (auto split: option.splits)
        have ex: "\<forall>collected. collectFn node = Some collected \<longrightarrow> set collected \<subseteq> T"
          using ih(2) by (auto split: option.splits)
        have "\<forall>x \<in> T - targets. \<forall>node collected. map_get graph x = Some node \<longrightarrow>
            collectFn node = Some collected \<longrightarrow> set collected \<subseteq> T"
        proof (intro ballI allI impI)
          fix x node' collected
          assume x: "x \<in> T - targets" and n: "map_get graph x = Some node'"
            and c: "collectFn node' = Some collected"
          show "set collected \<subseteq> T"
          proof (cases "x = last searchNames")
            case True
            with n Some have "node' = node" by simp
            with c ex show ?thesis by simp
          next
            case False
            with x have "x \<in> T - insert (last searchNames) targets" by simp
            with ih(3) n c show ?thesis by blast
          qed
        qed
        with ih(1) bl show ?thesis by (simp add: sn)
      qed
    qed
  qed
qed

text \<open>The trace: \<open>collectFn\<close> is called when a name enters the targets, and only then.\<close>

lemma collectLoop_calls:
  "collectLoop graph collectFn targets calls searchNames = Inr (T, c) \<Longrightarrow>
   distinct calls \<Longrightarrow> set calls = targets \<Longrightarrow> distinct c \<and> set c = T"
proof (induction graph collectFn targets calls searchNames rule: collectLoop.induct)
  case (1 graph collectFn targets calls searchNames)
  show ?case
  proof (cases "searchNames = []")
    case True
    with "1.prems" show ?thesis by (simp add: collectLoop_empty)
  next
    case ne: False
    show ?thesis
    proof (cases "last searchNames \<in> targets")
      case True
      from "1.prems"(1) have "collectLoop graph collectFn targets calls (butlast searchNames) = Inr (T, c)"
        by (simp add: collectLoop_seen [OF ne True])
      from "1.IH"(1) [OF ne True this "1.prems"(2,3)] show ?thesis .
    next
      case new: False
      show ?thesis
      proof (cases "map_get graph (last searchNames)")
        case None
        with "1.prems" show ?thesis
          by (simp add: collectLoop_missing [OF ne new None])
      next
        case (Some node)
        let ?stack = "case collectFn node of None \<Rightarrow> butlast searchNames
          | Some collected \<Rightarrow> butlast searchNames @ collected"
        from "1.prems"(1) have run: "collectLoop graph collectFn (insert (last searchNames) targets)
            (calls @ [last searchNames]) ?stack = Inr (T, c)"
          by (simp add: collectLoop_visit [OF ne new Some])
        have d: "distinct (calls @ [last searchNames])"
          using "1.prems"(2,3) new by simp
        have s: "set (calls @ [last searchNames]) = insert (last searchNames) targets"
          using "1.prems"(3) by simp
        from "1.IH"(2) [OF ne new Some run d s] show ?thesis .
      qed
    qed
  qed
qed


lemma collectLoop_result:
  "(case collectLoop graph collectFn {} [] startingPackageNames of
      Inl e \<Rightarrow> \<exists>x. reaches graph collectFn (set startingPackageNames) x \<and>
                 map_get graph x = None \<and> e = Error (notFoundMessage x)
    | Inr (T, c) \<Rightarrow> T = {x. reaches graph collectFn (set startingPackageNames) x} \<and>
                 (\<forall>x \<in> T. map_get graph x \<noteq> None) \<and> distinct c \<and> set c = T)"
proof -
  let ?R = "{x. reaches graph collectFn (set startingPackageNames) x}"
  have closed: "\<forall>x \<in> ?R. \<forall>node collected. map_get graph x = Some node \<longrightarrow>
      collectFn node = Some collected \<longrightarrow> set collected \<subseteq> ?R"
    by (auto intro: reaches.expand)
  have start: "set startingPackageNames \<subseteq> ?R"
    by (auto intro: reaches.start)
  have sound: "(case collectLoop graph collectFn {} [] startingPackageNames of
       Inl e \<Rightarrow> \<exists>x \<in> ?R. map_get graph x = None \<and> e = Error (notFoundMessage x)
     | Inr (T, c) \<Rightarrow> T \<subseteq> ?R \<and> (\<forall>x \<in> T. map_get graph x \<noteq> None))"
    by (rule collectLoop_sound [OF closed _ start]) simp_all
  show ?thesis
  proof (cases "collectLoop graph collectFn {} [] startingPackageNames")
    case (Inl e)
    with sound show ?thesis by auto
  next
    case (Inr r)
    obtain T c where r: "r = (T, c)" by (cases r)
    have run: "collectLoop graph collectFn {} [] startingPackageNames = Inr (T, c)"
      using Inr r by simp
    from collectLoop_closed [OF run]
    have st: "set startingPackageNames \<subseteq> T"
      and cl: "\<forall>x \<in> T. \<forall>node collected. map_get graph x = Some node \<longrightarrow>
        collectFn node = Some collected \<longrightarrow> set collected \<subseteq> T"
      by simp_all
    have "x \<in> T" if "reaches graph collectFn (set startingPackageNames) x" for x
      using that
    proof (induction rule: reaches.induct)
      case (start x)
      with st show ?case by blast
    next
      case (expand x node collected y)
      with cl show ?case by blast
    qed
    then have "?R \<subseteq> T" by blast
    moreover from sound run have "T \<subseteq> ?R" "\<forall>x \<in> T. map_get graph x \<noteq> None"
      by simp_all
    moreover from collectLoop_calls [OF run] have "distinct c \<and> set c = T"
      by simp
    ultimately show ?thesis using run by auto
  qed
qed

lemma collectLoop_Inr:
  assumes "collectLoop graph collectFn {} [] startingPackageNames = Inr (T, c)"
  shows "T = {x. reaches graph collectFn (set startingPackageNames) x}"
    and "\<And>x. reaches graph collectFn (set startingPackageNames) x \<Longrightarrow> map_get graph x \<noteq> None"
    and "distinct c" and "set c = T"
  using assms collectLoop_result [of graph collectFn startingPackageNames] by auto

lemma collectLoop_Inl:
  assumes "collectLoop graph collectFn {} [] startingPackageNames = Inl e"
  shows "\<exists>x. reaches graph collectFn (set startingPackageNames) x \<and> map_get graph x = None \<and>
           e = Error (notFoundMessage x)"
  using assms collectLoop_result [of graph collectFn startingPackageNames] by auto

lemma collectLoop_succeeds_iff:
  "(\<exists>T c. collectLoop graph collectFn {} [] startingPackageNames = Inr (T, c)) \<longleftrightarrow>
   (\<forall>x. reaches graph collectFn (set startingPackageNames) x \<longrightarrow> map_get graph x \<noteq> None)"
proof
  assume "\<exists>T c. collectLoop graph collectFn {} [] startingPackageNames = Inr (T, c)"
  then obtain T c where "collectLoop graph collectFn {} [] startingPackageNames = Inr (T, c)"
    by blast
  from collectLoop_Inr(2) [OF this]
  show "\<forall>x. reaches graph collectFn (set startingPackageNames) x \<longrightarrow> map_get graph x \<noteq> None"
    by blast
next
  assume all: "\<forall>x. reaches graph collectFn (set startingPackageNames) x \<longrightarrow> map_get graph x \<noteq> None"
  show "\<exists>T c. collectLoop graph collectFn {} [] startingPackageNames = Inr (T, c)"
  proof (cases "collectLoop graph collectFn {} [] startingPackageNames")
    case (Inl e)
    from collectLoop_Inl [OF this] all show ?thesis by blast
  next
    case (Inr r)
    then show ?thesis by (cases r) simp
  qed
qed

lemma collectPackageNames_Inr_iff:
  "collectPackageNames graph startingPackageNames collectFn = Inr T \<longleftrightarrow>
   (\<forall>x. reaches graph collectFn (set startingPackageNames) x \<longrightarrow> map_get graph x \<noteq> None) \<and>
   T = {x. reaches graph collectFn (set startingPackageNames) x}"
proof
  assume "collectPackageNames graph startingPackageNames collectFn = Inr T"
  then obtain c where run: "collectLoop graph collectFn {} [] startingPackageNames = Inr (T, c)"
    by (auto simp: collectPackageNames_def split: sum.splits)
  from collectLoop_Inr(1,2) [OF run]
  show "(\<forall>x. reaches graph collectFn (set startingPackageNames) x \<longrightarrow> map_get graph x \<noteq> None) \<and>
     T = {x. reaches graph collectFn (set startingPackageNames) x}"
    by blast
next
  assume a: "(\<forall>x. reaches graph collectFn (set startingPackageNames) x \<longrightarrow> map_get graph x \<noteq> None) \<and>
     T = {x. reaches graph collectFn (set startingPackageNames) x}"
  then obtain T' c where run: "collectLoop graph collectFn {} [] startingPackageNames = Inr (T', c)"
    using collectLoop_succeeds_iff [of graph collectFn startingPackageNames] by blast
  from collectLoop_Inr(1) [OF run] a have "T' = T" by simp
  with run show "collectPackageNames graph startingPackageNames collectFn = Inr T"
    by (simp add: collectPackageNames_def)
qed

lemma collectPackageNames_Inl_iff:
  "(\<exists>e. collectPackageNames graph startingPackageNames collectFn = Inl e) \<longleftrightarrow>
   (\<exists>x. reaches graph collectFn (set startingPackageNames) x \<and> map_get graph x = None)"
proof -
  have "(\<exists>e. collectPackageNames graph startingPackageNames collectFn = Inl e) \<longleftrightarrow>
      \<not> (\<exists>T. collectPackageNames graph startingPackageNames collectFn = Inr T)"
    by (cases "collectPackageNames graph startingPackageNames collectFn") simp_all
  then show ?thesis
    by (simp add: collectPackageNames_Inr_iff)
qed

text \<open>
  A run on the example graph, which has the cycle \<open>a \<rightarrow> b \<rightarrow> a\<close>: the start names are
  \<open>a\<close>, \<open>c\<close>, \<open>a\<close> and the callback follows all local dependencies.
\<close>

lemma collectLoop_example:
  "collectLoop exampleGraph allDependencies {} [] [''a'', ''c'', ''a''] =
     Inr ({''a'', ''b'', ''c'', ''d''}, [''a'', ''d'', ''c'', ''b''])"
  by (simp add: collectLoop.simps exampleGraph_def map_get_def allDependencies_def mkNode_def
      packageName_def mkPackage_def map_keys_def insert_commute)


text \<open>
  C7. The traversal throws if and only if a name the search can come across (a start name
  or a name yielded by the callback) has no node in the graph, and the message of the
  error is then \<^verbatim>\<open>Package '<name>' not found\<close> for such a name, which is a part of the
  message. Names yielded by the callback are pushed as they are: a name is looked up
  when it is popped, so the name reported is the missing name popped first. In the
  example the callback yields \<open>missing1\<close> and \<open>b\<close> for \<open>a\<close>, and the error names
  \<open>missing2\<close>, which is yielded later, for \<open>b\<close>, and not \<open>missing1\<close>.
\<close>

theorem collectPackageNames_not_found:
  "((\<exists>e. collectPackageNames graph startingPackageNames collectFn = Inl e) \<longleftrightarrow>
      (\<exists>x. reaches graph collectFn (set startingPackageNames) x \<and> map_get graph x = None)) \<and>
   (\<forall>e. collectPackageNames graph startingPackageNames collectFn = Inl e \<longrightarrow>
      (\<exists>x msg. reaches graph collectFn (set startingPackageNames) x \<and> map_get graph x = None \<and>
           e = Error msg \<and>
           msg = ''Package '' @ [CHR 0x27] @ x @ [CHR 0x27] @ '' not found'' \<and>
           sublist x msg)) \<and>
   (\<forall>targets calls searchNames x node collected.
      x \<notin> targets \<and> map_get graph x = Some node \<and> collectFn node = Some collected \<longrightarrow>
      collectLoop graph collectFn targets calls (searchNames @ [x]) =
        collectLoop graph collectFn (insert x targets) (calls @ [x]) (searchNames @ collected)) \<and>
   (\<forall>targets calls searchNames x.
      x \<notin> targets \<and> map_get graph x = None \<longrightarrow>
      collectLoop graph collectFn targets calls (searchNames @ [x]) =
        Inl (Error (''Package '' @ [CHR 0x27] @ x @ [CHR 0x27] @ '' not found''))) \<and>
   collectPackageNames exampleGraph [''a''] lazyCollectFn =
     Inl (Error (''Package '' @ [CHR 0x27] @ ''missing2'' @ [CHR 0x27] @ '' not found'')) \<and>
   collectPackageNames exampleGraph [''a''] lazyCollectFn \<noteq>
     Inl (Error (''Package '' @ [CHR 0x27] @ ''missing1'' @ [CHR 0x27] @ '' not found''))"
proof (intro conjI allI impI)
  show "(\<exists>e. collectPackageNames graph startingPackageNames collectFn = Inl e) \<longleftrightarrow>
      (\<exists>x. reaches graph collectFn (set startingPackageNames) x \<and> map_get graph x = None)"
    by (rule collectPackageNames_Inl_iff)
next
  fix e assume "collectPackageNames graph startingPackageNames collectFn = Inl e"
  then have "collectLoop graph collectFn {} [] startingPackageNames = Inl e"
    by (auto simp: collectPackageNames_def split: sum.splits)
  from collectLoop_Inl [OF this] obtain x where
    x: "reaches graph collectFn (set startingPackageNames) x" "map_get graph x = None"
      "e = Error (notFoundMessage x)"
    by blast
  let ?msg = "''Package '' @ [CHR 0x27] @ x @ [CHR 0x27] @ '' not found''"
  have e: "e = Error ?msg"
    using x(3) by (simp add: notFoundMessage_def)
  have sub: "sublist x ?msg"
    unfolding sublist_def
    by (rule exI [of _ "''Package '' @ [CHR 0x27]"],
        rule exI [of _ "[CHR 0x27] @ '' not found''"]) simp
  from x(1,2) e sub
  have "reaches graph collectFn (set startingPackageNames) x \<and> map_get graph x = None \<and>
           e = Error ?msg \<and> ?msg = ?msg \<and> sublist x ?msg"
    by simp
  then show "\<exists>x msg. reaches graph collectFn (set startingPackageNames) x \<and> map_get graph x = None \<and>
           e = Error msg \<and>
           msg = ''Package '' @ [CHR 0x27] @ x @ [CHR 0x27] @ '' not found'' \<and>
           sublist x msg"
    by (intro exI)
next
  fix targets calls searchNames x node collected
  assume "x \<notin> targets \<and> map_get graph x = Some node \<and> collectFn node = Some collected"
  then show "collectLoop graph collectFn targets calls (searchNames @ [x]) =
        collectLoop graph collectFn (insert x targets) (calls @ [x]) (searchNames @ collected)"
    using collectLoop_visit [of "searchNames @ [x]" targets graph node collectFn calls]
    by simp
next
  fix targets calls searchNames x
  assume "x \<notin> targets \<and> map_get graph x = None"
  then show "collectLoop graph collectFn targets calls (searchNames @ [x]) =
        Inl (Error (''Package '' @ [CHR 0x27] @ x @ [CHR 0x27] @ '' not found''))"
    using collectLoop_missing [of "searchNames @ [x]" targets graph collectFn calls]
    by (simp add: notFoundMessage_def)
next
  show "collectPackageNames exampleGraph [''a''] lazyCollectFn =
     Inl (Error (''Package '' @ [CHR 0x27] @ ''missing2'' @ [CHR 0x27] @ '' not found''))"
    by (simp add: collectPackageNames_def collectLoop.simps exampleGraph_def map_get_def
        lazyCollectFn_def mkNode_def packageName_def mkPackage_def notFoundMessage_def)
next
  show "collectPackageNames exampleGraph [''a''] lazyCollectFn \<noteq>
     Inl (Error (''Package '' @ [CHR 0x27] @ ''missing1'' @ [CHR 0x27] @ '' not found''))"
    by (simp add: collectPackageNames_def collectLoop.simps exampleGraph_def map_get_def
        lazyCollectFn_def mkNode_def packageName_def mkPackage_def notFoundMessage_def)
qed

text \<open>
  C8. Two lists of start names with the same set of elements give the same result set;
  in particular a list with repetitions gives the same set as the list without them.
  (Both traversals throw or neither does.)
\<close>

theorem collectPackageNames_start_multiplicity:
  assumes "set startingPackageNames = set startingPackageNames'"
  shows "(\<forall>T. collectPackageNames graph startingPackageNames collectFn = Inr T \<longleftrightarrow>
              collectPackageNames graph startingPackageNames' collectFn = Inr T) \<and>
         ((\<exists>e. collectPackageNames graph startingPackageNames collectFn = Inl e) \<longleftrightarrow>
          (\<exists>e. collectPackageNames graph startingPackageNames' collectFn = Inl e))"
  by (simp add: collectPackageNames_Inr_iff collectPackageNames_Inl_iff assms)



theorem collectPackageNames_not_found_witness:
  "collectPackageNames exampleGraph [''a''] lazyCollectFn =
     Inl (Error (''Package '' @ [CHR 0x27] @ ''missing2'' @ [CHR 0x27] @ '' not found'')) \<and>
   collectPackageNames exampleGraph [''a''] lazyCollectFn \<noteq>
     Inl (Error (''Package '' @ [CHR 0x27] @ ''missing1'' @ [CHR 0x27] @ '' not found'')) \<and>
   (\<exists>x msg. reaches exampleGraph lazyCollectFn (set [''a'']) x \<and> map_get exampleGraph x = None \<and>
        Error (''Package '' @ [CHR 0x27] @ ''missing2'' @ [CHR 0x27] @ '' not found'') = Error msg \<and>
        msg = ''Package '' @ [CHR 0x27] @ x @ [CHR 0x27] @ '' not found'' \<and> sublist x msg) \<and>
   (''missing1'' \<notin> {''a''} \<and> map_get exampleGraph ''missing1'' = None) \<and>
   collectLoop exampleGraph lazyCollectFn {''a''} [''a''] ([''b''] @ [''missing1'']) =
     Inl (Error (''Package '' @ [CHR 0x27] @ ''missing1'' @ [CHR 0x27] @ '' not found''))"
proof -
  note inst = collectPackageNames_not_found [of exampleGraph "[''a'']" lazyCollectFn]
  have run: "collectPackageNames exampleGraph [''a''] lazyCollectFn =
     Inl (Error (''Package '' @ [CHR 0x27] @ ''missing2'' @ [CHR 0x27] @ '' not found''))"
    by (rule inst [THEN conjunct2, THEN conjunct2, THEN conjunct2, THEN conjunct2,
          THEN conjunct1])
  have other: "collectPackageNames exampleGraph [''a''] lazyCollectFn \<noteq>
     Inl (Error (''Package '' @ [CHR 0x27] @ ''missing1'' @ [CHR 0x27] @ '' not found''))"
    by (rule inst [THEN conjunct2, THEN conjunct2, THEN conjunct2, THEN conjunct2,
          THEN conjunct2])
  have ex: "\<exists>x msg. reaches exampleGraph lazyCollectFn (set [''a'']) x \<and>
        map_get exampleGraph x = None \<and>
        Error (''Package '' @ [CHR 0x27] @ ''missing2'' @ [CHR 0x27] @ '' not found'') = Error msg \<and>
        msg = ''Package '' @ [CHR 0x27] @ x @ [CHR 0x27] @ '' not found'' \<and> sublist x msg"
    by (rule inst [THEN conjunct2, THEN conjunct1, rule_format, OF run])
  have none: "''missing1'' \<notin> {''a''} \<and> map_get exampleGraph ''missing1'' = None"
    by (simp add: exampleGraph_def map_get_def)
  have lazy: "collectLoop exampleGraph lazyCollectFn {''a''} [''a''] ([''b''] @ [''missing1'']) =
     Inl (Error (''Package '' @ [CHR 0x27] @ ''missing1'' @ [CHR 0x27] @ '' not found''))"
    by (rule inst [THEN conjunct2, THEN conjunct2, THEN conjunct2, THEN conjunct1, rule_format,
          OF none])
  show ?thesis
    by (rule conjI [OF run conjI [OF other conjI [OF ex conjI [OF none lazy]]]])
qed

theorem collectPackageNames_start_multiplicity_witness:
  "set [''c'', ''a'', ''c'', ''c''] = set (remdups [''c'', ''a'', ''c'', ''c'']) \<and>
   (\<forall>T. collectPackageNames exampleGraph [''c'', ''a'', ''c'', ''c''] allDependencies = Inr T \<longleftrightarrow>
      collectPackageNames exampleGraph (remdups [''c'', ''a'', ''c'', ''c'']) allDependencies = Inr T) \<and>
   ((\<exists>e. collectPackageNames exampleGraph [''c'', ''a'', ''c'', ''c''] allDependencies = Inl e) \<longleftrightarrow>
    (\<exists>e. collectPackageNames exampleGraph (remdups [''c'', ''a'', ''c'', ''c'']) allDependencies
       = Inl e))"
proof -
  have h: "set [''c'', ''a'', ''c'', ''c''] = set (remdups [''c'', ''a'', ''c'', ''c''])"
    by (rule set_remdups [symmetric])
  show ?thesis
    by (rule conjI [OF h collectPackageNames_start_multiplicity [OF h]])
qed

section \<open>Changed-package detection\<close>

subsection \<open>The order on strings and prefixes\<close>

lemma prefix_le: "prefix d (f :: string) \<Longrightarrow> d \<le> f"
proof (induction d arbitrary: f)
  case Nil
  then show ?case by simp
next
  case (Cons a d)
  then obtain f' where "f = a # f'" "prefix d f'"
    by (cases f) auto
  with Cons.IH show ?case by simp
qed

lemma strict_prefix_less: "strict_prefix d (e :: string) \<Longrightarrow> d < e"
  using prefix_le [of d e] by (auto simp: strict_prefix_def)

lemma prefix_between:
  "d \<le> f \<Longrightarrow> f \<le> g \<Longrightarrow> prefix d g \<Longrightarrow> prefix d (f :: string)"
proof (induction d arbitrary: f g)
  case Nil
  then show ?case by simp
next
  case (Cons a d)
  from Cons.prems(3) obtain g' where g: "g = a # g'" "prefix d g'"
    by (cases g) auto
  from Cons.prems(1) obtain b f' where f: "f = b # f'"
    by (cases f) auto
  from Cons.prems(1,2) have "a \<le> b" "b \<le> a"
    by (auto simp: f g)
  then have ab: "b = a" by simp
  with Cons.prems(1,2) have "d \<le> f'" "f' \<le> g'"
    by (auto simp: f g)
  from Cons.IH [OF this g(2)] show ?case
    by (simp add: f ab)
qed

lemma prefix_both:
  "prefix d g \<Longrightarrow> prefix e g \<Longrightarrow> d < (e :: string) \<Longrightarrow> strict_prefix d e"
proof -
  assume a: "prefix d g" "prefix e g" "d < e"
  then have "prefix d e \<or> prefix e d"
    by (meson prefix_same_cases)
  moreover have "\<not> prefix e d"
    using prefix_le [of e d] a(3) by auto
  ultimately show ?thesis
    using a(3) by (auto simp: strict_prefix_def)
qed


subsection \<open>The two inner loops on the files still to be read\<close>

lemma skipBefore_drop:
  "searchIndex \<le> length changedFiles \<Longrightarrow>
   skipBefore changedFiles packageDir searchIndex \<le> length changedFiles \<and>
   drop (skipBefore changedFiles packageDir searchIndex) changedFiles =
     dropWhile (\<lambda>f. f < packageDir) (drop searchIndex changedFiles)"
proof (induction changedFiles packageDir searchIndex rule: skipBefore.induct)
  case (1 changedFiles packageDir searchIndex)
  show ?case
  proof (cases "searchIndex < length changedFiles")
    case False
    then have "skipBefore changedFiles packageDir searchIndex = searchIndex"
      by (subst skipBefore.simps) simp
    with False "1.prems" show ?thesis by simp
  next
    case True
    then have d: "drop searchIndex changedFiles =
        changedFiles ! searchIndex # drop (searchIndex + 1) changedFiles"
      by (simp add: Cons_nth_drop_Suc)
    show ?thesis
    proof (cases "changedFiles ! searchIndex < packageDir")
      case less: True
      from True have "searchIndex + 1 \<le> length changedFiles" by simp
      from "1.IH" [OF conjI [OF True less] this] show ?thesis
        using True less
        by (simp add: skipBefore.simps [of changedFiles packageDir searchIndex] d)
    next
      case False
      with True "1.prems" show ?thesis
        by (simp add: skipBefore.simps [of changedFiles packageDir searchIndex] d)
    qed
  qed
qed

lemma skipSame_drop:
  "searchIndex \<le> length changedFiles \<Longrightarrow>
   skipSame changedFiles packageDir searchIndex \<le> length changedFiles \<and>
   drop (skipSame changedFiles packageDir searchIndex) changedFiles =
     dropWhile (prefix packageDir) (drop searchIndex changedFiles)"
proof (induction changedFiles packageDir searchIndex rule: skipSame.induct)
  case (1 changedFiles packageDir searchIndex)
  show ?case
  proof (cases "searchIndex < length changedFiles")
    case False
    then have "skipSame changedFiles packageDir searchIndex = searchIndex"
      by (subst skipSame.simps) (simp add: startsWithAt_def)
    with False "1.prems" show ?thesis by simp
  next
    case True
    then have d: "drop searchIndex changedFiles =
        changedFiles ! searchIndex # drop (searchIndex + 1) changedFiles"
      by (simp add: Cons_nth_drop_Suc)
    show ?thesis
    proof (cases "prefix packageDir (changedFiles ! searchIndex)")
      case pre: True
      with True have sw: "startsWithAt changedFiles searchIndex packageDir"
        by (simp add: startsWithAt_def)
      from True have "searchIndex + 1 \<le> length changedFiles" by simp
      from "1.IH" [OF sw this] show ?thesis
        using sw pre
        by (simp add: skipSame.simps [of changedFiles packageDir searchIndex] d)
    next
      case False
      with True "1.prems" show ?thesis
        by (simp add: skipSame.simps [of changedFiles packageDir searchIndex] d startsWithAt_def)
    qed
  qed
qed

lemma startsWithAt_drop:
  "startsWithAt changedFiles searchIndex packageDir \<longleftrightarrow>
   (case drop searchIndex changedFiles of [] \<Rightarrow> False | f # rest \<Rightarrow> prefix packageDir f)"
proof (cases "searchIndex < length changedFiles")
  case True
  then have "drop searchIndex changedFiles =
      changedFiles ! searchIndex # drop (searchIndex + 1) changedFiles"
    by (simp add: Cons_nth_drop_Suc)
  with True show ?thesis by (simp add: startsWithAt_def)
next
  case False
  then show ?thesis by (simp add: startsWithAt_def)
qed

lemma fold_checkPackageDir:
  "searchIndex \<le> length changedFiles \<Longrightarrow>
   snd (fold (checkPackageDir dm changedFiles) packageDirs (searchIndex, result)) =
     result @ map (map_get dm) (matchedDirs packageDirs (drop searchIndex changedFiles))"
proof (induction packageDirs arbitrary: searchIndex result)
  case Nil
  then show ?case by simp
next
  case (Cons packageDir packageDirs)
  let ?i = "skipBefore changedFiles packageDir searchIndex"
  from skipBefore_drop [OF Cons.prems, of packageDir]
  have i: "?i \<le> length changedFiles"
    and di: "drop ?i changedFiles =
      dropWhile (\<lambda>f. f < packageDir) (drop searchIndex changedFiles)"
    by simp_all
  show ?case
  proof (cases "startsWithAt changedFiles ?i packageDir")
    case True
    then have lt: "?i < length changedFiles" by (simp add: startsWithAt_def)
    then have dc: "drop ?i changedFiles = changedFiles ! ?i # drop (Suc ?i) changedFiles"
      by (simp add: Cons_nth_drop_Suc)
    from True have pre: "prefix packageDir (changedFiles ! ?i)"
      by (simp add: startsWithAt_def)
    let ?j = "skipSame changedFiles packageDir (Suc ?i)"
    from lt have "Suc ?i \<le> length changedFiles" by simp
    from skipSame_drop [OF this, of packageDir]
    have j: "?j \<le> length changedFiles"
      and dj: "drop ?j changedFiles = dropWhile (prefix packageDir) (drop (Suc ?i) changedFiles)"
      by simp_all
    have step: "checkPackageDir dm changedFiles packageDir (searchIndex, result) =
        (?j, result @ [map_get dm packageDir])"
      using True by (simp add: checkPackageDir_def)
    have m: "matchedDirs (packageDir # packageDirs) (drop searchIndex changedFiles) =
        packageDir # matchedDirs packageDirs (drop ?j changedFiles)"
      using pre by (simp add: di [symmetric] dc dj)
    show ?thesis
      using Cons.IH [OF j, of "result @ [map_get dm packageDir]"]
      by (simp add: step m del: matchedDirs.simps)
  next
    case False
    have step: "checkPackageDir dm changedFiles packageDir (searchIndex, result) = (?i, result)"
      using False by (simp add: checkPackageDir_def)
    have m: "matchedDirs (packageDir # packageDirs) (drop searchIndex changedFiles) =
        matchedDirs packageDirs (drop ?i changedFiles)"
      using False
      by (auto simp: startsWithAt_drop di [symmetric] split: list.splits)
    show ?thesis
      using Cons.IH [OF i, of result] by (simp add: step m del: matchedDirs.simps)
  qed
qed

lemma listChangedPackages_matchedDirs:
  "listChangedPackages relativeDir graph changedFiles =
     map (map_get (dirMap relativeDir graph))
       (matchedDirs (sort (map_keys (dirMap relativeDir graph))) (sort changedFiles))"
  using fold_checkPackageDir [of 0 "sort changedFiles" "dirMap relativeDir graph"
      "sort (map_keys (dirMap relativeDir graph))" "[]"]
  by (simp add: listChangedPackages_def)


subsection \<open>Which directories the pass reports\<close>

lemma dropWhile_less_sorted:
  "sorted (files :: string list) \<Longrightarrow>
   dropWhile (\<lambda>f. f < d) files = filter (\<lambda>f. d \<le> f) files"
proof (induction files)
  case Nil
  then show ?case by simp
next
  case (Cons f files)
  show ?case
  proof (cases "f < d")
    case True
    with Cons show ?thesis by auto
  next
    case False
    with Cons.prems have "\<forall>g \<in> set files. d \<le> g" by auto
    then have "filter (\<lambda>f. d \<le> f) files = files" by simp
    with False show ?thesis by auto
  qed
qed

lemma dropWhile_prefix_sorted:
  "sorted (rest :: string list) \<Longrightarrow> \<forall>g \<in> set rest. d \<le> g \<Longrightarrow>
   dropWhile (prefix d) rest = filter (\<lambda>g. \<not> prefix d g) rest"
proof (induction rest)
  case Nil
  then show ?case by simp
next
  case (Cons g rest)
  show ?case
  proof (cases "prefix d g")
    case True
    with Cons show ?thesis by simp
  next
    case False
    have "\<not> prefix d h" if "h \<in> set rest" for h
    proof
      assume "prefix d h"
      moreover from Cons.prems that have "d \<le> g" "g \<le> h" by auto
      ultimately have "prefix d g" by (rule prefix_between [rotated 2])
      with False show False by simp
    qed
    then have "filter (\<lambda>g. \<not> prefix d g) rest = rest" by simp
    with False show ?thesis by simp
  qed
qed

lemma matchedDirs_filter:
  "sorted files \<Longrightarrow> sorted_wrt (<) packageDirs \<Longrightarrow>
   matchedDirs packageDirs files =
     filter (\<lambda>d. (\<exists>f \<in> set files. prefix d f) \<and>
                 \<not> (\<exists>d' \<in> set packageDirs. strict_prefix d' d)) packageDirs"
proof (induction packageDirs arbitrary: files)
  case Nil
  then show ?case by simp
next
  case (Cons d ds)
  let ?s1 = "dropWhile (\<lambda>f. f < d) files"
  have s1: "?s1 = filter (\<lambda>f. d \<le> f) files"
    using Cons.prems(1) by (rule dropWhile_less_sorted)
  have sorted1: "sorted ?s1"
    using Cons.prems(1) by (simp add: s1 sorted_wrt_filter)
  have gt: "\<forall>e \<in> set ds. d < e" and sds: "sorted_wrt (<) ds"
    using Cons.prems(2) by simp_all
  have outer_d: "\<not> (\<exists>d' \<in> set (d # ds). strict_prefix d' d)"
  proof
    assume "\<exists>d' \<in> set (d # ds). strict_prefix d' d"
    then obtain d' where d': "d' \<in> set (d # ds)" "strict_prefix d' d" by blast
    from d'(2) have "d' < d" by (rule strict_prefix_less)
    with d'(1) gt show False by auto
  qed
  have in_s1: "g \<in> set ?s1" if "e \<in> set ds" "g \<in> set files" "prefix e g" for e g
  proof -
    from that(1) gt have "d < e" by blast
    moreover from that(3) have "e \<le> g" by (rule prefix_le)
    ultimately have "d \<le> g" by simp
    with that(2) show ?thesis by (simp add: s1)
  qed
  show ?case
  proof (cases "\<exists>f rest. ?s1 = f # rest \<and> prefix d f")
    case True
    then obtain f rest where fr: "?s1 = f # rest" and pre: "prefix d f" by blast
    let ?s2 = "dropWhile (prefix d) rest"
    have sortedrest: "sorted rest"
      using sorted1 by (simp add: fr)
    have "\<forall>g \<in> set ?s1. d \<le> g"
      by (simp add: s1)
    then have ge: "\<forall>g \<in> set rest. d \<le> g"
      by (simp add: fr)
    have s2: "?s2 = filter (\<lambda>g. \<not> prefix d g) rest"
      using sortedrest ge by (rule dropWhile_prefix_sorted)
    have sorted2: "sorted ?s2"
      using sortedrest by (simp add: s2 sorted_wrt_filter)
    have m: "matchedDirs (d # ds) files = d # matchedDirs ds ?s2"
      using pre by (simp add: fr)
    have "f \<in> set ?s1" by (simp add: fr)
    then have "f \<in> set files" by (simp add: s1)
    with pre have has_d: "\<exists>f \<in> set files. prefix d f" by blast
    have cong: "filter (\<lambda>e. (\<exists>g \<in> set ?s2. prefix e g) \<and>
                     \<not> (\<exists>d' \<in> set ds. strict_prefix d' e)) ds =
        filter (\<lambda>e. (\<exists>g \<in> set files. prefix e g) \<and>
                     \<not> (\<exists>d' \<in> set (d # ds). strict_prefix d' e)) ds"
    proof (rule filter_cong [OF refl])
      fix e assume e: "e \<in> set ds"
      then have de: "d < e" using gt by blast
      have "(\<exists>g \<in> set ?s2. prefix e g) \<longleftrightarrow>
          (\<exists>g \<in> set files. prefix e g) \<and> \<not> strict_prefix d e"
      proof
        assume "\<exists>g \<in> set ?s2. prefix e g"
        then obtain g where g: "g \<in> set rest" "\<not> prefix d g" "prefix e g"
          by (auto simp: s2)
        from g(1) have "g \<in> set ?s1" by (simp add: fr)
        then have "g \<in> set files" by (simp add: s1)
        moreover have "\<not> strict_prefix d e"
        proof
          assume "strict_prefix d e"
          then have "prefix d e" by (simp add: strict_prefix_def)
          from this g(3) have "prefix d g" by (rule prefix_order.trans)
          with g(2) show False by simp
        qed
        ultimately show "(\<exists>g \<in> set files. prefix e g) \<and> \<not> strict_prefix d e"
          using g(3) by blast
      next
        assume a: "(\<exists>g \<in> set files. prefix e g) \<and> \<not> strict_prefix d e"
        then obtain g where g: "g \<in> set files" "prefix e g" by blast
        from in_s1 [OF e g] have gs1: "g \<in> set (f # rest)" by (simp add: fr)
        have npre: "\<not> prefix d g"
        proof
          assume "prefix d g"
          from prefix_both [OF this g(2) de] a show False by simp
        qed
        with pre gs1 have "g \<in> set rest" by auto
        with npre have "g \<in> set ?s2" by (simp add: s2)
        with g(2) show "\<exists>g \<in> set ?s2. prefix e g" by blast
      qed
      then show "((\<exists>g \<in> set ?s2. prefix e g) \<and> \<not> (\<exists>d' \<in> set ds. strict_prefix d' e)) =
          ((\<exists>g \<in> set files. prefix e g) \<and> \<not> (\<exists>d' \<in> set (d # ds). strict_prefix d' e))"
        by auto
    qed
    from Cons.IH [OF sorted2 sds] have "matchedDirs ds ?s2 =
        filter (\<lambda>e. (\<exists>g \<in> set files. prefix e g) \<and>
                     \<not> (\<exists>d' \<in> set (d # ds). strict_prefix d' e)) ds"
      by (simp only: cong)
    with m has_d outer_d show ?thesis by simp
  next
    case False
    have m: "matchedDirs (d # ds) files = matchedDirs ds ?s1"
    proof (cases ?s1)
      case Nil
      then show ?thesis by (simp only: matchedDirs.simps list.case)
    next
      case (Cons f rest)
      with False have "\<not> prefix d f" by blast
      with Cons show ?thesis by (simp only: matchedDirs.simps list.case if_False)
    qed
    have no_d: "\<not> (\<exists>g \<in> set files. prefix d g)"
    proof
      assume "\<exists>g \<in> set files. prefix d g"
      then obtain g where g: "g \<in> set files" "prefix d g" by blast
      from g(2) have "d \<le> g" by (rule prefix_le)
      with g(1) have gs1: "g \<in> set ?s1" by (simp add: s1)
      then obtain f rest where fr: "?s1 = f # rest" by (cases ?s1) auto
      have "f \<in> set ?s1" by (simp add: fr)
      then have "d \<le> f" by (simp add: s1)
      moreover have "f \<le> g" using sorted1 gs1 by (auto simp: fr)
      ultimately have "prefix d f" using g(2) by (rule prefix_between)
      with fr False show False by blast
    qed
    have cong: "filter (\<lambda>e. (\<exists>g \<in> set ?s1. prefix e g) \<and>
                     \<not> (\<exists>d' \<in> set ds. strict_prefix d' e)) ds =
        filter (\<lambda>e. (\<exists>g \<in> set files. prefix e g) \<and>
                     \<not> (\<exists>d' \<in> set (d # ds). strict_prefix d' e)) ds"
    proof (rule filter_cong [OF refl])
      fix e assume e: "e \<in> set ds"
      have files_iff: "(\<exists>g \<in> set ?s1. prefix e g) \<longleftrightarrow> (\<exists>g \<in> set files. prefix e g)"
        using in_s1 [OF e] by (auto simp: s1)
      have "\<not> strict_prefix d e" if "\<exists>g \<in> set files. prefix e g"
      proof
        assume "strict_prefix d e"
        then have "prefix d e" by (simp add: strict_prefix_def)
        moreover from that obtain g where "g \<in> set files" "prefix e g" by blast
        ultimately have "\<exists>g \<in> set files. prefix d g"
          using prefix_order.trans by blast
        with no_d show False by simp
      qed
      with files_iff
      show "((\<exists>g \<in> set ?s1. prefix e g) \<and> \<not> (\<exists>d' \<in> set ds. strict_prefix d' e)) =
          ((\<exists>g \<in> set files. prefix e g) \<and> \<not> (\<exists>d' \<in> set (d # ds). strict_prefix d' e))"
        by auto
    qed
    from Cons.IH [OF sorted1 sds] have "matchedDirs ds ?s1 =
        filter (\<lambda>e. (\<exists>g \<in> set files. prefix e g) \<and>
                     \<not> (\<exists>d' \<in> set (d # ds). strict_prefix d' e)) ds"
      by (simp only: cong)
    with m no_d show ?thesis by simp
  qed
qed


subsection \<open>The directory map\<close>

lemma fold_map_set_distinct:
  "distinct (map fst m) \<Longrightarrow> distinct (map fst (fold (\<lambda>(k, v) m. map_set m k v) entries m))"
  by (induction entries arbitrary: m) (auto simp: distinct_map_set)

lemma fold_map_set_keys:
  "set (map fst (fold (\<lambda>(k, v) m. map_set m k v) entries m)) =
     set (map fst m) \<union> fst ` set entries"
proof (induction entries arbitrary: m)
  case Nil
  then show ?case by simp
next
  case (Cons e entries)
  obtain k v where e: "e = (k, v)" by (cases e)
  show ?case
    using Cons.IH [of "map_set m k v"] keys_map_set [of m k v]
    by (auto simp: e)
qed

lemma fold_map_set_get:
  "map_get (fold (\<lambda>(k, v) m. map_set m k v) entries m) x = Some y \<Longrightarrow>
   (x, y) \<in> set entries \<or> map_get m x = Some y"
proof (induction entries arbitrary: m)
  case Nil
  then show ?case by simp
next
  case (Cons e entries)
  obtain k v where e: "e = (k, v)" by (cases e)
  from Cons.prems have "map_get (fold (\<lambda>(k, v) m. map_set m k v) entries (map_set m k v)) x = Some y"
    by (simp add: e)
  from Cons.IH [OF this] show ?case
    by (auto simp: e map_get_map_set split: if_splits)
qed

lemma dirMap_distinct: "distinct (map_keys (dirMap relativeDir graph))"
  using fold_map_set_distinct [of "[]"]
  by (simp add: dirMap_def map_from_entries_def map_keys_def)

lemma dirMap_keys:
  "set (map_keys (dirMap relativeDir graph)) =
     (\<lambda>pkg. relativeDir (dir pkg) @ ''/'') ` set (map_values graph)"
proof -
  have "fst ` set (map (\<lambda>pkg. (relativeDir (dir pkg) @ ''/'', pkg)) (map_values graph)) =
      (\<lambda>pkg. relativeDir (dir pkg) @ ''/'') ` set (map_values graph)"
    by (simp add: image_image)
  with fold_map_set_keys
    [of "map (\<lambda>pkg. (relativeDir (dir pkg) @ ''/'', pkg)) (map_values graph)" "[]"]
  show ?thesis
    by (simp add: dirMap_def map_from_entries_def map_keys_def del: set_map)
qed

lemma dirMap_get:
  "map_get (dirMap relativeDir graph) d = Some pkg \<Longrightarrow>
   pkg \<in> set (map_values graph) \<and> d = relativeDir (dir pkg) @ ''/''"
  using fold_map_set_get [of "map (\<lambda>pkg. (relativeDir (dir pkg) @ ''/'', pkg)) (map_values graph)"
      "[]" d pkg]
  by (auto simp: dirMap_def map_from_entries_def map_get_def)

text \<open>Of several entries with the same key the map keeps the last.\<close>

lemma map_of_fold_map_set:
  "map_of (fold (\<lambda>(k, v) m. map_set m k v) entries m) = map_of m ++ map_of (rev entries)"
proof (induction entries arbitrary: m)
  case Nil
  then show ?case by simp
next
  case (Cons e entries)
  obtain k v where e: "e = (k, v)" by (cases e)
  have "map_of (fold (\<lambda>(k, v) m. map_set m k v) (e # entries) m) =
      map_of (map_set m k v) ++ map_of (rev entries)"
    using Cons.IH [of "map_set m k v"] by (simp add: e)
  also have "\<dots> = map_of m ++ map_of (rev (e # entries))"
    by (simp add: e map_of_map_set map_add_upd_left fun_eq_iff map_add_def split: option.splits)
  finally show ?case .
qed

lemma map_of_rev_keyed:
  "map_of (rev (map (\<lambda>n. (key n, n)) ns)) d =
     (if filter (\<lambda>n. key n = d) ns = [] then None
      else Some (last (filter (\<lambda>n. key n = d) ns)))"
  by (induction ns rule: rev_induct) auto

lemma dirMap_get_last:
  "map_get (dirMap relativeDir graph) d =
     (if filter (\<lambda>pkg. relativeDir (dir pkg) @ ''/'' = d) (map_values graph) = [] then None
      else Some (last (filter (\<lambda>pkg. relativeDir (dir pkg) @ ''/'' = d) (map_values graph))))"
  using map_of_rev_keyed [of "\<lambda>pkg. relativeDir (dir pkg) @ ''/''" "map_values graph" d]
  by (simp add: dirMap_def map_from_entries_def map_get_def map_of_fold_map_set)

lemma listChangedPackages_filter:
  "listChangedPackages relativeDir graph changedFiles =
     map (map_get (dirMap relativeDir graph))
       (filter (\<lambda>d. (\<exists>f \<in> set changedFiles. prefix d f) \<and>
                  \<not> (\<exists>d' \<in> set (map_keys (dirMap relativeDir graph)). strict_prefix d' d))
          (sort (map_keys (dirMap relativeDir graph))))"
proof -
  have "sorted_wrt (<) (sort (map_keys (dirMap relativeDir graph)))"
    by (simp add: strict_sorted_iff dirMap_distinct)
  from matchedDirs_filter [OF sorted_sort this, of changedFiles]
  show ?thesis
    by (simp add: listChangedPackages_matchedDirs)
qed

text \<open>The result as a list of nodes.\<close>

lemma listChangedPackages_nodes:
  "\<exists>nodes. listChangedPackages relativeDir graph changedFiles = map Some nodes \<and>
     set nodes \<subseteq> set (map_values graph) \<and>
     map (\<lambda>pkg. relativeDir (dir pkg) @ ''/'') nodes =
       filter (\<lambda>d. (\<exists>f \<in> set changedFiles. prefix d f) \<and>
                  \<not> (\<exists>d' \<in> set (map_keys (dirMap relativeDir graph)). strict_prefix d' d))
          (sort (map_keys (dirMap relativeDir graph)))"
proof -
  let ?dm = "dirMap relativeDir graph"
  let ?ds = "filter (\<lambda>d. (\<exists>f \<in> set changedFiles. prefix d f) \<and>
                  \<not> (\<exists>d' \<in> set (map_keys ?dm). strict_prefix d' d)) (sort (map_keys ?dm))"
  let ?nodes = "map (\<lambda>d. the (map_get ?dm d)) ?ds"
  have def: "\<exists>pkg. map_get ?dm d = Some pkg" if "d \<in> set ?ds" for d
  proof -
    from that have "d \<in> set (map_keys ?dm)" by simp
    then show ?thesis by (simp add: map_keys_iff)
  qed
  have "map (map_get ?dm) ?ds = map Some ?nodes"
    using def by (auto simp del: set_filter)
  then have r: "listChangedPackages relativeDir graph changedFiles = map Some ?nodes"
    by (simp only: listChangedPackages_filter)
  have sub: "set ?nodes \<subseteq> set (map_values graph)"
  proof
    fix n assume "n \<in> set ?nodes"
    then obtain d where d: "d \<in> set ?ds" "n = the (map_get ?dm d)" by auto
    from def [OF d(1)] d(2) have "map_get ?dm d = Some n" by auto
    from dirMap_get [OF this] show "n \<in> set (map_values graph)" by simp
  qed
  have "map (\<lambda>pkg. relativeDir (dir pkg) @ ''/'') ?nodes = ?ds"
  proof -
    have "relativeDir (dir (the (map_get ?dm d))) @ ''/'' = d" if "d \<in> set ?ds" for d
    proof -
      from def [OF that] obtain pkg where p: "map_get ?dm d = Some pkg" by blast
      from dirMap_get [OF p] p show ?thesis by simp
    qed
    then show ?thesis
      by (simp add: map_idI del: set_filter)
  qed
  with r sub show ?thesis by blast
qed


subsection \<open>The three cases of the specification, run on the loop itself\<close>

lemma ex_ab:
  assumes "relativeDir (dir a) = ''pkg-a''" and "relativeDir (dir b) = ''pkg-b''"
  shows "listChangedPackages relativeDir [(ka, a), (kb, b)]
           [''pkg-a/index.ts'', ''pkg-b/readme.md'', ''other/file.txt''] = [Some a, Some b]"
    and "listChangedPackages relativeDir [(kb, b), (ka, a)]
           [''pkg-a/index.ts'', ''pkg-b/readme.md'', ''other/file.txt''] = [Some a, Some b]"
  by (simp_all add: listChangedPackages_filter dirMap_def map_from_entries_def map_values_def
      map_keys_def map_get_def assms)

lemma ex_collision:
  assumes "relativeDir (dir a) = ''pkg-a''" and "relativeDir (dir ab) = ''pkg-ab''"
  shows "listChangedPackages relativeDir [(ka, a), (kab, ab)] [''pkg-ab/x.ts''] = [Some ab]"
  by (simp add: listChangedPackages_def dirMap_def map_from_entries_def map_values_def
      map_keys_def map_get_def assms checkPackageDir_def skipBefore.simps skipSame.simps
      startsWithAt_def)

lemma ex_nested:
  assumes "relativeDir (dir root) = ''pkg''" and "relativeDir (dir child) = ''pkg/sub''"
  shows "listChangedPackages relativeDir [(kr, root), (kc, child)] [''pkg/sub/x.ts''] = [Some root]"
  by (simp add: listChangedPackages_def dirMap_def map_from_entries_def map_values_def
      map_keys_def map_get_def assms checkPackageDir_def skipBefore.simps skipSame.simps
      startsWithAt_def)


subsection \<open>What the result holds\<close>

lemma result_member:
  assumes "Some pkg \<in> set (listChangedPackages relativeDir graph changedFiles)"
  shows "pkg \<in> set (map_values graph)"
    and "\<exists>f \<in> set changedFiles. prefix (relativeDir (dir pkg) @ ''/'') f"
    and "\<not> (\<exists>d' \<in> set (map_keys (dirMap relativeDir graph)).
            strict_prefix d' (relativeDir (dir pkg) @ ''/''))"
proof -
  from listChangedPackages_nodes [of relativeDir graph changedFiles] obtain nodes where
    r: "listChangedPackages relativeDir graph changedFiles = map Some nodes" and
    sub: "set nodes \<subseteq> set (map_values graph)" and
    keys: "map (\<lambda>pkg. relativeDir (dir pkg) @ ''/'') nodes =
       filter (\<lambda>d. (\<exists>f \<in> set changedFiles. prefix d f) \<and>
                  \<not> (\<exists>d' \<in> set (map_keys (dirMap relativeDir graph)). strict_prefix d' d))
          (sort (map_keys (dirMap relativeDir graph)))"
    by blast
  from assms r have pkg: "pkg \<in> set nodes" by auto
  with sub show "pkg \<in> set (map_values graph)" by blast
  from pkg have "(\<lambda>pkg. relativeDir (dir pkg) @ ''/'') pkg
      \<in> (\<lambda>pkg. relativeDir (dir pkg) @ ''/'') ` set nodes"
    by (rule imageI)
  then have "relativeDir (dir pkg) @ ''/'' \<in> set (map (\<lambda>pkg. relativeDir (dir pkg) @ ''/'') nodes)"
    by simp
  then have "relativeDir (dir pkg) @ ''/'' \<in> set (filter (\<lambda>d. (\<exists>f \<in> set changedFiles. prefix d f) \<and>
                  \<not> (\<exists>d' \<in> set (map_keys (dirMap relativeDir graph)). strict_prefix d' d))
          (sort (map_keys (dirMap relativeDir graph))))"
    by (simp only: keys)
  then show "\<exists>f \<in> set changedFiles. prefix (relativeDir (dir pkg) @ ''/'') f"
    and "\<not> (\<exists>d' \<in> set (map_keys (dirMap relativeDir graph)).
            strict_prefix d' (relativeDir (dir pkg) @ ''/''))"
    by simp_all
qed

lemma result_iff:
  "Some pkg \<in> set (listChangedPackages relativeDir graph changedFiles) \<longleftrightarrow>
     pkg \<in> set (map_values graph) \<and>
     pkg = last (filter (\<lambda>other. relativeDir (dir other) @ ''/'' = relativeDir (dir pkg) @ ''/'')
                  (map_values graph)) \<and>
     (\<exists>f \<in> set changedFiles. prefix (relativeDir (dir pkg) @ ''/'') f) \<and>
     (\<forall>outer \<in> set (map_values graph).
        \<not> strict_prefix (relativeDir (dir outer) @ ''/'') (relativeDir (dir pkg) @ ''/''))"
  (is "?L \<longleftrightarrow> ?R")
proof
  let ?key = "\<lambda>pkg. relativeDir (dir pkg) @ ''/''"
  let ?dm = "dirMap relativeDir graph"
  let ?P = "\<lambda>d. (\<exists>f \<in> set changedFiles. prefix d f) \<and>
                  \<not> (\<exists>d' \<in> set (map_keys ?dm). strict_prefix d' d)"
  have res: "listChangedPackages relativeDir graph changedFiles =
      map (map_get ?dm) (filter ?P (sort (map_keys ?dm)))"
    by (rule listChangedPackages_filter)
  have outer_iff: "(\<exists>d' \<in> set (map_keys ?dm). strict_prefix d' d) \<longleftrightarrow>
      (\<exists>outer \<in> set (map_values graph). strict_prefix (?key outer) d)" for d
    by (simp add: dirMap_keys)
  {
    assume ?L
    then have "Some pkg \<in> map_get ?dm ` set (filter ?P (sort (map_keys ?dm)))"
      by (simp only: res set_map)
    then obtain d where din: "d \<in> set (filter ?P (sort (map_keys ?dm)))"
      and dget: "Some pkg = map_get ?dm d"
      by (rule imageE)
    from din have files: "\<exists>f \<in> set changedFiles. prefix d f"
      and noouter: "\<not> (\<exists>d' \<in> set (map_keys ?dm). strict_prefix d' d)"
      by simp_all
    from dget have get: "map_get ?dm d = Some pkg" by simp
    from dirMap_get [OF get] have mem: "pkg \<in> set (map_values graph)" and key: "d = ?key pkg"
      by simp_all
    from get have lst: "pkg = last (filter (\<lambda>other. ?key other = d) (map_values graph))"
      by (simp add: dirMap_get_last split: if_splits)
    from noouter have no: "\<forall>outer \<in> set (map_values graph). \<not> strict_prefix (?key outer) d"
      by (simp only: outer_iff) blast
    from mem lst files no show ?R
      unfolding key by (intro conjI)
  }
  {
    assume r: ?R
    then have mem: "pkg \<in> set (map_values graph)"
      and lst: "pkg = last (filter (\<lambda>other. ?key other = ?key pkg) (map_values graph))"
      and files: "\<exists>f \<in> set changedFiles. prefix (?key pkg) f"
      and no: "\<forall>outer \<in> set (map_values graph). \<not> strict_prefix (?key outer) (?key pkg)"
      by blast+
    from mem have ne: "filter (\<lambda>other. ?key other = ?key pkg) (map_values graph) \<noteq> []"
      by (simp add: filter_empty_conv) blast
    have get: "map_get ?dm (?key pkg) = Some pkg"
      using ne lst [symmetric] by (simp add: dirMap_get_last)
    then have k: "?key pkg \<in> set (map_keys ?dm)"
      by (simp add: map_keys_iff)
    from no have "\<not> (\<exists>d' \<in> set (map_keys ?dm). strict_prefix d' (?key pkg))"
      by (simp only: outer_iff) blast
    with files k have "?key pkg \<in> set (filter ?P (sort (map_keys ?dm)))" by simp
    then have "map_get ?dm (?key pkg) \<in> map_get ?dm ` set (filter ?P (sort (map_keys ?dm)))"
      by (rule imageI)
    then have "Some pkg \<in> map_get ?dm ` set (filter ?P (sort (map_keys ?dm)))"
      by (simp only: get)
    then show ?L by (simp only: res set_map)
  }
qed

lemma result_ignores_foreign_file:
  assumes "\<forall>pkg \<in> set (map_values graph). \<not> prefix (relativeDir (dir pkg) @ ''/'') g"
  shows "listChangedPackages relativeDir graph (xs @ g # ys) =
         listChangedPackages relativeDir graph (xs @ ys)"
proof -
  have "filter (\<lambda>d. (\<exists>f \<in> set (xs @ g # ys). prefix d f) \<and>
                  \<not> (\<exists>d' \<in> set (map_keys (dirMap relativeDir graph)). strict_prefix d' d))
          (sort (map_keys (dirMap relativeDir graph))) =
      filter (\<lambda>d. (\<exists>f \<in> set (xs @ ys). prefix d f) \<and>
                  \<not> (\<exists>d' \<in> set (map_keys (dirMap relativeDir graph)). strict_prefix d' d))
          (sort (map_keys (dirMap relativeDir graph)))"
  proof (rule filter_cong [OF refl])
    fix d assume "d \<in> set (sort (map_keys (dirMap relativeDir graph)))"
    then have "d \<in> (\<lambda>pkg. relativeDir (dir pkg) @ ''/'') ` set (map_values graph)"
      by (simp add: dirMap_keys)
    with assms have "\<not> prefix d g" by auto
    then show "((\<exists>f \<in> set (xs @ g # ys). prefix d f) \<and>
                  \<not> (\<exists>d' \<in> set (map_keys (dirMap relativeDir graph)). strict_prefix d' d)) =
       ((\<exists>f \<in> set (xs @ ys). prefix d f) \<and>
                  \<not> (\<exists>d' \<in> set (map_keys (dirMap relativeDir graph)). strict_prefix d' d))"
      by auto
  qed
  then show ?thesis by (simp only: listChangedPackages_filter)
qed

lemma result_sorted:
  "\<exists>nodes. listChangedPackages relativeDir graph changedFiles = map Some nodes \<and>
     set nodes \<subseteq> set (map_values graph) \<and>
     sorted_wrt (<) (map (\<lambda>pkg. relativeDir (dir pkg) @ ''/'') nodes)"
proof -
  from listChangedPackages_nodes [of relativeDir graph changedFiles] obtain nodes where
    r: "listChangedPackages relativeDir graph changedFiles = map Some nodes" and
    sub: "set nodes \<subseteq> set (map_values graph)" and
    keys: "map (\<lambda>pkg. relativeDir (dir pkg) @ ''/'') nodes =
       filter (\<lambda>d. (\<exists>f \<in> set changedFiles. prefix d f) \<and>
                  \<not> (\<exists>d' \<in> set (map_keys (dirMap relativeDir graph)). strict_prefix d' d))
          (sort (map_keys (dirMap relativeDir graph)))"
    by blast
  have "sorted_wrt (<) (sort (map_keys (dirMap relativeDir graph)))"
    by (simp add: strict_sorted_iff dirMap_distinct)
  then have "sorted_wrt (<) (map (\<lambda>pkg. relativeDir (dir pkg) @ ''/'') nodes)"
    by (simp only: keys sorted_wrt_filter)
  with r sub show ?thesis by blast
qed

lemma result_depends_on_file_set:
  "set changedFiles = set changedFiles' \<Longrightarrow>
   listChangedPackages relativeDir graph changedFiles =
   listChangedPackages relativeDir graph changedFiles'"
  by (simp only: listChangedPackages_filter)

lemma separator_tells_siblings_apart:
  assumes "c \<noteq> CHR ''/''"
  shows "\<not> (prefix (p @ ''/'') f \<and> prefix (p @ c # s @ ''/'') f)"
proof
  assume "prefix (p @ ''/'') f \<and> prefix (p @ c # s @ ''/'') f"
  then have "prefix (p @ ''/'') (p @ c # s @ ''/'') \<or> prefix (p @ c # s @ ''/'') (p @ ''/'')"
    by (meson prefix_same_cases)
  with assms show False by auto
qed


subsection \<open>Nested package directories\<close>

lemma plainNode_dir: "dir (plainNode nm d) = d"
  by (simp add: plainNode_def mkNode_def mkPackage_def)

text \<open>
  C1 as stated does not hold. With the root at \<open>pkg/\<close>, the child at \<open>pkg/sub/\<close> and the
  changed file \<open>pkg/sub/x.ts\<close>, it is not the case that both packages are returned: the
  root matches first, the search index moves past the file, and the child finds nothing.
\<close>

theorem nested_child_counterexample:
  "\<not> (Some (plainNode ''root'' ''/r/pkg'')
        \<in> set (listChangedPackages relativeToRoot nestedGraph [''pkg/sub/x.ts'']) \<and>
      Some (plainNode ''child'' ''/r/pkg/sub'')
        \<in> set (listChangedPackages relativeToRoot nestedGraph [''pkg/sub/x.ts'']))"
proof -
  have "listChangedPackages relativeToRoot nestedGraph [''pkg/sub/x.ts'']
      = [Some (plainNode ''root'' ''/r/pkg'')]"
    by (simp add: nestedGraph_def ex_nested relativeToRoot_def plainNode_dir)
  moreover have "plainNode ''child'' ''/r/pkg/sub'' \<noteq> plainNode ''root'' ''/r/pkg''"
    by (simp add: plainNode_def mkNode_def mkPackage_def)
  ultimately show ?thesis by simp
qed

text \<open>
  C1, amended. The directory key of a package is its normalised directory relative to the
  target root, followed by the separator. For the root with key \<open>pkg/\<close>, the child with
  key \<open>pkg/sub/\<close> and the changed file \<open>pkg/sub/x.ts\<close> the result is the root alone, in
  either insertion order. In general a package is returned if and only if some changed
  file starts with its key, the key of no package of the graph is a proper prefix of its
  key, and it is the last package of the graph, in insertion order, with that key. So a
  package whose key properly extends the key of another package is never returned, and
  a package with a changed file under its key, whose key extends no other key and is
  the key of no other package, is returned. A package at the target root has the key
  \<open>./\<close>, which is a prefix of no other key: a package below it is returned as usual.
\<close>

theorem listChangedPackages_nested_outermost:
  "(relativeDir (dir root) = ''pkg'' \<longrightarrow> relativeDir (dir child) = ''pkg/sub'' \<longrightarrow>
      listChangedPackages relativeDir [(kr, root), (kc, child)] [''pkg/sub/x.ts'']
        = [Some root] \<and>
      listChangedPackages relativeDir [(kc, child), (kr, root)] [''pkg/sub/x.ts'']
        = [Some root]) \<and>
   (relativeDir (dir atRoot) = ''.'' \<longrightarrow> relativeDir (dir a) = ''pkg-a'' \<longrightarrow>
      listChangedPackages relativeDir [(kt, atRoot), (ka, a)] [''pkg-a/x.ts''] = [Some a]) \<and>
   (\<forall>pkg. Some pkg \<in> set (listChangedPackages relativeDir graph changedFiles) \<longleftrightarrow>
      pkg \<in> set (map_values graph) \<and>
      pkg = last (filter (\<lambda>other. relativeDir (dir other) @ ''/'' = relativeDir (dir pkg) @ ''/'')
                   (map_values graph)) \<and>
      (\<exists>f \<in> set changedFiles. prefix (relativeDir (dir pkg) @ ''/'') f) \<and>
      (\<forall>outer \<in> set (map_values graph).
         \<not> strict_prefix (relativeDir (dir outer) @ ''/'') (relativeDir (dir pkg) @ ''/''))) \<and>
   (\<forall>pkg outer. pkg \<in> set (map_values graph) \<longrightarrow> outer \<in> set (map_values graph) \<longrightarrow>
      strict_prefix (relativeDir (dir outer) @ ''/'') (relativeDir (dir pkg) @ ''/'') \<longrightarrow>
      Some pkg \<notin> set (listChangedPackages relativeDir graph changedFiles)) \<and>
   (\<forall>pkg f. pkg \<in> set (map_values graph) \<longrightarrow> f \<in> set changedFiles \<longrightarrow>
      prefix (relativeDir (dir pkg) @ ''/'') f \<longrightarrow>
      (\<forall>outer \<in> set (map_values graph).
         \<not> strict_prefix (relativeDir (dir outer) @ ''/'') (relativeDir (dir pkg) @ ''/'')) \<longrightarrow>
      (\<forall>other \<in> set (map_values graph).
         relativeDir (dir other) @ ''/'' = relativeDir (dir pkg) @ ''/'' \<longrightarrow> other = pkg) \<longrightarrow>
      Some pkg \<in> set (listChangedPackages relativeDir graph changedFiles))"
proof (intro conjI allI impI)
  assume h: "relativeDir (dir root) = ''pkg''" "relativeDir (dir child) = ''pkg/sub''"
  from h show "listChangedPackages relativeDir [(kr, root), (kc, child)] [''pkg/sub/x.ts'']
        = [Some root]"
    by (rule ex_nested)
  from h show "listChangedPackages relativeDir [(kc, child), (kr, root)] [''pkg/sub/x.ts'']
        = [Some root]"
    by (simp add: listChangedPackages_def dirMap_def map_from_entries_def map_values_def
      map_keys_def map_get_def checkPackageDir_def skipBefore.simps skipSame.simps
      startsWithAt_def)
next
  assume "relativeDir (dir atRoot) = ''.''" "relativeDir (dir a) = ''pkg-a''"
  then show "listChangedPackages relativeDir [(kt, atRoot), (ka, a)] [''pkg-a/x.ts''] = [Some a]"
    by (simp add: listChangedPackages_def dirMap_def map_from_entries_def map_values_def
      map_keys_def map_get_def checkPackageDir_def skipBefore.simps skipSame.simps
      startsWithAt_def)
next
  fix pkg :: PackageGraphNode
  show "Some pkg \<in> set (listChangedPackages relativeDir graph changedFiles) \<longleftrightarrow>
      pkg \<in> set (map_values graph) \<and>
      pkg = last (filter (\<lambda>other. relativeDir (dir other) @ ''/'' = relativeDir (dir pkg) @ ''/'')
                   (map_values graph)) \<and>
      (\<exists>f \<in> set changedFiles. prefix (relativeDir (dir pkg) @ ''/'') f) \<and>
      (\<forall>outer \<in> set (map_values graph).
         \<not> strict_prefix (relativeDir (dir outer) @ ''/'') (relativeDir (dir pkg) @ ''/''))"
    by (rule result_iff)
next
  fix pkg outer :: PackageGraphNode
  assume outer: "outer \<in> set (map_values graph)"
    and sp: "strict_prefix (relativeDir (dir outer) @ ''/'') (relativeDir (dir pkg) @ ''/'')"
  show "Some pkg \<notin> set (listChangedPackages relativeDir graph changedFiles)"
  proof
    assume "Some pkg \<in> set (listChangedPackages relativeDir graph changedFiles)"
    then have "\<forall>outer \<in> set (map_values graph).
         \<not> strict_prefix (relativeDir (dir outer) @ ''/'') (relativeDir (dir pkg) @ ''/'')"
      by (simp only: result_iff) (elim conjE)
    with outer sp show False by blast
  qed
next
  fix pkg :: PackageGraphNode and f
  assume mem: "pkg \<in> set (map_values graph)"
    and f: "f \<in> set changedFiles" "prefix (relativeDir (dir pkg) @ ''/'') f"
    and no: "\<forall>outer \<in> set (map_values graph).
         \<not> strict_prefix (relativeDir (dir outer) @ ''/'') (relativeDir (dir pkg) @ ''/'')"
    and only: "\<forall>other \<in> set (map_values graph).
         relativeDir (dir other) @ ''/'' = relativeDir (dir pkg) @ ''/'' \<longrightarrow> other = pkg"
  let ?same = "filter (\<lambda>other. relativeDir (dir other) @ ''/'' = relativeDir (dir pkg) @ ''/'')
                   (map_values graph)"
  from mem have ne: "?same \<noteq> []"
    by (simp add: filter_empty_conv) blast
  then have "last ?same \<in> set ?same" by (rule last_in_set)
  then have "last ?same \<in> set (map_values graph) \<and>
      relativeDir (dir (last ?same)) @ ''/'' = relativeDir (dir pkg) @ ''/''"
    by (simp only: set_filter mem_Collect_eq)
  with only have "last ?same = pkg" by blast
  then have lst: "pkg = last ?same" by (rule sym)
  from f have files: "\<exists>f \<in> set changedFiles. prefix (relativeDir (dir pkg) @ ''/'') f"
    by blast
  from mem lst files no
  show "Some pkg \<in> set (listChangedPackages relativeDir graph changedFiles)"
    by (simp only: result_iff)
qed

theorem listChangedPackages_nested_outermost_witness:
  "(relativeToRoot (dir (plainNode ''root'' ''/r/pkg'')) = ''pkg'' \<and>
    relativeToRoot (dir (plainNode ''child'' ''/r/pkg/sub'')) = ''pkg/sub'' \<and>
    listChangedPackages relativeToRoot
      [(''root'', plainNode ''root'' ''/r/pkg''), (''child'', plainNode ''child'' ''/r/pkg/sub'')]
      [''pkg/sub/x.ts''] = [Some (plainNode ''root'' ''/r/pkg'')]) \<and>
   (plainNode ''child'' ''/r/pkg/sub'' \<in> set (map_values nestedGraph) \<and>
    plainNode ''root'' ''/r/pkg'' \<in> set (map_values nestedGraph) \<and>
    strict_prefix (relativeToRoot (dir (plainNode ''root'' ''/r/pkg'')) @ ''/'')
      (relativeToRoot (dir (plainNode ''child'' ''/r/pkg/sub'')) @ ''/'') \<and>
    Some (plainNode ''child'' ''/r/pkg/sub'')
      \<notin> set (listChangedPackages relativeToRoot nestedGraph [''pkg/sub/x.ts''])) \<and>
   (''pkg/sub/x.ts'' \<in> set [''pkg/sub/x.ts''] \<and>
    prefix (relativeToRoot (dir (plainNode ''root'' ''/r/pkg'')) @ ''/'') ''pkg/sub/x.ts'' \<and>
    Some (plainNode ''root'' ''/r/pkg'')
      \<in> set (listChangedPackages relativeToRoot nestedGraph [''pkg/sub/x.ts''])) \<and>
   (relativeToRoot (dir (plainNode ''top'' ''/r'')) = ''.'' \<and>
    relativeToRoot (dir (plainNode ''a'' ''/r/pkg-a'')) = ''pkg-a'' \<and>
    listChangedPackages relativeToRoot
      [(''top'', plainNode ''top'' ''/r''), (''a'', plainNode ''a'' ''/r/pkg-a'')]
      [''pkg-a/x.ts''] = [Some (plainNode ''a'' ''/r/pkg-a'')]) \<and>
   (Some (plainNode ''b'' ''/r/pkg'')
      \<in> set (listChangedPackages relativeToRoot sharedDirGraph [''pkg/x.ts'']) \<and>
    plainNode ''a'' ''/r/pkg'' \<noteq>
      last (filter (\<lambda>other. relativeToRoot (dir other) @ ''/''
                      = relativeToRoot (dir (plainNode ''a'' ''/r/pkg'')) @ ''/'')
              (map_values sharedDirGraph)) \<and>
    Some (plainNode ''a'' ''/r/pkg'')
      \<notin> set (listChangedPackages relativeToRoot sharedDirGraph [''pkg/x.ts'']))"
proof -
  note inst = listChangedPackages_nested_outermost
    [of relativeToRoot "plainNode ''root'' ''/r/pkg''" "plainNode ''child'' ''/r/pkg/sub''"
       "''root''" "''child''" "plainNode ''top'' ''/r''" "plainNode ''a'' ''/r/pkg-a''"
       "''top''" "''a''" nestedGraph "[''pkg/sub/x.ts'']"]
  note shared = listChangedPackages_nested_outermost
    [of relativeToRoot "plainNode ''root'' ''/r/pkg''" "plainNode ''child'' ''/r/pkg/sub''"
       "''root''" "''child''" "plainNode ''top'' ''/r''" "plainNode ''a'' ''/r/pkg-a''"
       "''top''" "''a''" sharedDirGraph "[''pkg/x.ts'']",
     THEN conjunct2, THEN conjunct2, THEN conjunct1, rule_format]
  have r: "relativeToRoot (dir (plainNode ''root'' ''/r/pkg'')) = ''pkg''"
    by (simp add: relativeToRoot_def plainNode_dir)
  have c: "relativeToRoot (dir (plainNode ''child'' ''/r/pkg/sub'')) = ''pkg/sub''"
    by (simp add: relativeToRoot_def plainNode_dir)
  have cin: "plainNode ''child'' ''/r/pkg/sub'' \<in> set (map_values nestedGraph)"
    by (simp add: nestedGraph_def map_values_def)
  have rin: "plainNode ''root'' ''/r/pkg'' \<in> set (map_values nestedGraph)"
    by (simp add: nestedGraph_def map_values_def)
  have sp: "strict_prefix (relativeToRoot (dir (plainNode ''root'' ''/r/pkg'')) @ ''/'')
      (relativeToRoot (dir (plainNode ''child'' ''/r/pkg/sub'')) @ ''/'')"
    by (simp add: r c)
  have fin: "''pkg/sub/x.ts'' \<in> set [''pkg/sub/x.ts'']"
    by simp
  have pre: "prefix (relativeToRoot (dir (plainNode ''root'' ''/r/pkg'')) @ ''/'') ''pkg/sub/x.ts''"
    by (simp add: r)
  have out: "\<forall>outer \<in> set (map_values nestedGraph).
       \<not> strict_prefix (relativeToRoot (dir outer) @ ''/'')
           (relativeToRoot (dir (plainNode ''root'' ''/r/pkg'')) @ ''/'')"
    by (simp add: nestedGraph_def map_values_def relativeToRoot_def plainNode_dir)
  have only: "\<forall>other \<in> set (map_values nestedGraph).
       relativeToRoot (dir other) @ ''/''
         = relativeToRoot (dir (plainNode ''root'' ''/r/pkg'')) @ ''/'' \<longrightarrow>
       other = plainNode ''root'' ''/r/pkg''"
    by (simp add: nestedGraph_def map_values_def relativeToRoot_def plainNode_dir)
  have 1: "listChangedPackages relativeToRoot
      [(''root'', plainNode ''root'' ''/r/pkg''), (''child'', plainNode ''child'' ''/r/pkg/sub'')]
      [''pkg/sub/x.ts''] = [Some (plainNode ''root'' ''/r/pkg'')]"
    by (rule inst [THEN conjunct1, rule_format, OF r c, THEN conjunct1])
  have 2: "Some (plainNode ''child'' ''/r/pkg/sub'')
      \<notin> set (listChangedPackages relativeToRoot nestedGraph [''pkg/sub/x.ts''])"
    by (rule inst [THEN conjunct2, THEN conjunct2, THEN conjunct2, THEN conjunct1, rule_format,
          OF cin rin sp])
  have 3: "Some (plainNode ''root'' ''/r/pkg'')
      \<in> set (listChangedPackages relativeToRoot nestedGraph [''pkg/sub/x.ts''])"
    by (rule inst [THEN conjunct2, THEN conjunct2, THEN conjunct2, THEN conjunct2, rule_format,
          OF rin fin pre out [rule_format] only [rule_format]])
  have ab: "plainNode ''a'' ''/r/pkg'' \<noteq> plainNode ''b'' ''/r/pkg''"
    by (simp add: plainNode_def mkNode_def mkPackage_def packageName_def)
  have lastb: "last (filter (\<lambda>other. relativeToRoot (dir other) @ ''/''
                      = relativeToRoot (dir (plainNode ''b'' ''/r/pkg'')) @ ''/'')
              (map_values sharedDirGraph)) = plainNode ''b'' ''/r/pkg''"
    by (simp add: sharedDirGraph_def map_values_def plainNode_dir)
  have lasta: "last (filter (\<lambda>other. relativeToRoot (dir other) @ ''/''
                      = relativeToRoot (dir (plainNode ''a'' ''/r/pkg'')) @ ''/'')
              (map_values sharedDirGraph)) = plainNode ''b'' ''/r/pkg''"
    by (simp add: sharedDirGraph_def map_values_def plainNode_dir)
  have 4: "Some (plainNode ''b'' ''/r/pkg'')
      \<in> set (listChangedPackages relativeToRoot sharedDirGraph [''pkg/x.ts''])"
    by (simp only: shared lastb)
      (simp add: sharedDirGraph_def map_values_def relativeToRoot_def plainNode_dir)
  have 5: "plainNode ''a'' ''/r/pkg'' \<noteq>
      last (filter (\<lambda>other. relativeToRoot (dir other) @ ''/''
                      = relativeToRoot (dir (plainNode ''a'' ''/r/pkg'')) @ ''/'')
              (map_values sharedDirGraph))"
    by (simp only: lasta) (rule ab)
  have 6: "Some (plainNode ''a'' ''/r/pkg'')
      \<notin> set (listChangedPackages relativeToRoot sharedDirGraph [''pkg/x.ts''])"
    using 5 by (simp only: shared) blast
  have t: "relativeToRoot (dir (plainNode ''top'' ''/r'')) = ''.''"
    by (simp add: relativeToRoot_def plainNode_dir)
  have a: "relativeToRoot (dir (plainNode ''a'' ''/r/pkg-a'')) = ''pkg-a''"
    by (simp add: relativeToRoot_def plainNode_dir)
  have 7: "listChangedPackages relativeToRoot
      [(''top'', plainNode ''top'' ''/r''), (''a'', plainNode ''a'' ''/r/pkg-a'')]
      [''pkg-a/x.ts''] = [Some (plainNode ''a'' ''/r/pkg-a'')]"
    by (rule inst [THEN conjunct2, THEN conjunct1, rule_format, OF t a])
  from r c 1 cin rin sp 2 fin pre 3 t a 7 4 5 6 show ?thesis
    by (intro conjI)
qed

subsection \<open>Order of the result and directories that share a prefix\<close>

text \<open>
  C9. With the packages \<open>a\<close> at \<open>pkg-a/\<close> and \<open>b\<close> at \<open>pkg-b/\<close>, in either insertion
  order, and the changed files \<open>pkg-a/index.ts\<close>, \<open>pkg-b/readme.md\<close>, \<open>other/file.txt\<close>
  the result is \<open>[a, b]\<close>. In general the result is a list of nodes of the graph whose
  directory keys are strictly increasing; it does not depend on the order or the
  multiplicity of the changed files; and a file under no package directory changes
  nothing. The function has no error result.
\<close>

theorem listChangedPackages_sorted_directory_order:
  "(relativeDir (dir a) = ''pkg-a'' \<longrightarrow> relativeDir (dir b) = ''pkg-b'' \<longrightarrow>
      listChangedPackages relativeDir [(ka, a), (kb, b)]
        [''pkg-a/index.ts'', ''pkg-b/readme.md'', ''other/file.txt''] = [Some a, Some b] \<and>
      listChangedPackages relativeDir [(kb, b), (ka, a)]
        [''pkg-a/index.ts'', ''pkg-b/readme.md'', ''other/file.txt''] = [Some a, Some b]) \<and>
   (\<exists>nodes. listChangedPackages relativeDir graph changedFiles = map Some nodes \<and>
      set nodes \<subseteq> set (map_values graph) \<and>
      sorted_wrt (<) (map (\<lambda>pkg. relativeDir (dir pkg) @ ''/'') nodes)) \<and>
   (\<forall>changedFiles'. set changedFiles' = set changedFiles \<longrightarrow>
      listChangedPackages relativeDir graph changedFiles' =
      listChangedPackages relativeDir graph changedFiles) \<and>
   (\<forall>xs g ys. (\<forall>pkg \<in> set (map_values graph). \<not> prefix (relativeDir (dir pkg) @ ''/'') g) \<longrightarrow>
      listChangedPackages relativeDir graph (xs @ g # ys) =
      listChangedPackages relativeDir graph (xs @ ys))"
proof (intro conjI allI impI)
  assume h: "relativeDir (dir a) = ''pkg-a''" "relativeDir (dir b) = ''pkg-b''"
  from h show "listChangedPackages relativeDir [(ka, a), (kb, b)]
        [''pkg-a/index.ts'', ''pkg-b/readme.md'', ''other/file.txt''] = [Some a, Some b]"
    by (rule ex_ab(1))
  from h show "listChangedPackages relativeDir [(kb, b), (ka, a)]
        [''pkg-a/index.ts'', ''pkg-b/readme.md'', ''other/file.txt''] = [Some a, Some b]"
    by (rule ex_ab(2))
next
  show "\<exists>nodes. listChangedPackages relativeDir graph changedFiles = map Some nodes \<and>
      set nodes \<subseteq> set (map_values graph) \<and>
      sorted_wrt (<) (map (\<lambda>pkg. relativeDir (dir pkg) @ ''/'') nodes)"
    by (rule result_sorted)
next
  fix changedFiles' assume "set changedFiles' = set changedFiles"
  then show "listChangedPackages relativeDir graph changedFiles' =
      listChangedPackages relativeDir graph changedFiles"
    by (rule result_depends_on_file_set)
next
  fix xs g ys
  assume "\<forall>pkg \<in> set (map_values graph). \<not> prefix (relativeDir (dir pkg) @ ''/'') g"
  then show "listChangedPackages relativeDir graph (xs @ g # ys) =
      listChangedPackages relativeDir graph (xs @ ys)"
    by (rule result_ignores_foreign_file)
qed

theorem listChangedPackages_sorted_directory_order_witness:
  "(relativeToRoot (dir (plainNode ''a'' ''/r/pkg-a'')) = ''pkg-a'' \<and>
    relativeToRoot (dir (plainNode ''b'' ''/r/pkg-b'')) = ''pkg-b'' \<and>
    listChangedPackages relativeToRoot
      [(''b'', plainNode ''b'' ''/r/pkg-b''), (''a'', plainNode ''a'' ''/r/pkg-a'')]
      [''pkg-a/index.ts'', ''pkg-b/readme.md'', ''other/file.txt'']
      = [Some (plainNode ''a'' ''/r/pkg-a''), Some (plainNode ''b'' ''/r/pkg-b'')]) \<and>
   (set [''pkg-b/readme.md'', ''pkg-a/index.ts'', ''pkg-b/readme.md'']
      = set [''pkg-a/index.ts'', ''pkg-b/readme.md''] \<and>
    listChangedPackages relativeToRoot siblingGraph
      [''pkg-b/readme.md'', ''pkg-a/index.ts'', ''pkg-b/readme.md''] =
    listChangedPackages relativeToRoot siblingGraph [''pkg-a/index.ts'', ''pkg-b/readme.md'']) \<and>
   (\<not> prefix (relativeToRoot ''/r/pkg-a'' @ ''/'') ''other/file.txt'' \<and>
    \<not> prefix (relativeToRoot ''/r/pkg-b'' @ ''/'') ''other/file.txt'' \<and>
    listChangedPackages relativeToRoot siblingGraph
      ([''pkg-a/index.ts'', ''pkg-b/readme.md''] @ ''other/file.txt'' # []) =
    listChangedPackages relativeToRoot siblingGraph ([''pkg-a/index.ts'', ''pkg-b/readme.md''] @ []))"
proof -
  note inst = listChangedPackages_sorted_directory_order
    [of relativeToRoot "plainNode ''a'' ''/r/pkg-a''" "plainNode ''b'' ''/r/pkg-b''"
       "''a''" "''b''" siblingGraph "[''pkg-a/index.ts'', ''pkg-b/readme.md'']"]
  have a: "relativeToRoot (dir (plainNode ''a'' ''/r/pkg-a'')) = ''pkg-a''"
    by (simp add: relativeToRoot_def plainNode_dir)
  have b: "relativeToRoot (dir (plainNode ''b'' ''/r/pkg-b'')) = ''pkg-b''"
    by (simp add: relativeToRoot_def plainNode_dir)
  have s: "set [''pkg-b/readme.md'', ''pkg-a/index.ts'', ''pkg-b/readme.md'']
      = set [''pkg-a/index.ts'', ''pkg-b/readme.md'']"
    by auto
  have foreign: "\<forall>pkg \<in> set (map_values siblingGraph).
       \<not> prefix (relativeToRoot (dir pkg) @ ''/'') ''other/file.txt''"
    by (simp add: siblingGraph_def map_values_def relativeToRoot_def plainNode_dir)
  have 1: "listChangedPackages relativeToRoot
      [(''b'', plainNode ''b'' ''/r/pkg-b''), (''a'', plainNode ''a'' ''/r/pkg-a'')]
      [''pkg-a/index.ts'', ''pkg-b/readme.md'', ''other/file.txt'']
      = [Some (plainNode ''a'' ''/r/pkg-a''), Some (plainNode ''b'' ''/r/pkg-b'')]"
    by (rule inst [THEN conjunct1, rule_format, OF a b, THEN conjunct2])
  have 2: "listChangedPackages relativeToRoot siblingGraph
      [''pkg-b/readme.md'', ''pkg-a/index.ts'', ''pkg-b/readme.md''] =
    listChangedPackages relativeToRoot siblingGraph [''pkg-a/index.ts'', ''pkg-b/readme.md'']"
    by (rule inst [THEN conjunct2, THEN conjunct2, THEN conjunct1, rule_format, OF s])
  have 3: "listChangedPackages relativeToRoot siblingGraph
      ([''pkg-a/index.ts'', ''pkg-b/readme.md''] @ ''other/file.txt'' # []) =
    listChangedPackages relativeToRoot siblingGraph ([''pkg-a/index.ts'', ''pkg-b/readme.md''] @ [])"
    by (rule inst [THEN conjunct2, THEN conjunct2, THEN conjunct2, rule_format])
      (rule foreign [rule_format])
  have na: "\<not> prefix (relativeToRoot ''/r/pkg-a'' @ ''/'') ''other/file.txt''"
    by (simp add: relativeToRoot_def)
  have nb: "\<not> prefix (relativeToRoot ''/r/pkg-b'' @ ''/'') ''other/file.txt''"
    by (simp add: relativeToRoot_def)
  from a b 1 s 2 na nb 3 show ?thesis
    by (intro conjI)
qed

text \<open>
  C10. With the packages \<open>a\<close> at \<open>pkg-a/\<close> and \<open>ab\<close> at \<open>pkg-ab/\<close> and the changed file
  \<open>pkg-ab/x.ts\<close> the result is \<open>[ab]\<close>. In general a package is returned only if a
  changed file starts with its directory key, which ends with the separator; so a
  package at \<open>p\<close> is not returned when every changed file lies under a sibling
  directory \<open>p @ c # s\<close> whose name extends \<open>p\<close> by characters that do not start with the
  separator.
\<close>

theorem listChangedPackages_prefix_collision:
  "(relativeDir (dir a) = ''pkg-a'' \<longrightarrow> relativeDir (dir ab) = ''pkg-ab'' \<longrightarrow>
      listChangedPackages relativeDir [(ka, a), (kab, ab)] [''pkg-ab/x.ts''] = [Some ab] \<and>
      listChangedPackages relativeDir [(kab, ab), (ka, a)] [''pkg-ab/x.ts''] = [Some ab]) \<and>
   (\<forall>pkg. Some pkg \<in> set (listChangedPackages relativeDir graph changedFiles) \<longrightarrow>
      (\<exists>f \<in> set changedFiles. prefix (relativeDir (dir pkg) @ ''/'') f)) \<and>
   (\<forall>pkg c s. c \<noteq> CHR ''/'' \<longrightarrow>
      (\<forall>f \<in> set changedFiles. prefix (relativeDir (dir pkg) @ c # s @ ''/'') f) \<longrightarrow>
      Some pkg \<notin> set (listChangedPackages relativeDir graph changedFiles))"
proof (intro conjI allI impI)
  assume h: "relativeDir (dir a) = ''pkg-a''" "relativeDir (dir ab) = ''pkg-ab''"
  from h show "listChangedPackages relativeDir [(ka, a), (kab, ab)] [''pkg-ab/x.ts''] = [Some ab]"
    by (rule ex_collision)
  from h show "listChangedPackages relativeDir [(kab, ab), (ka, a)] [''pkg-ab/x.ts''] = [Some ab]"
    by (simp add: listChangedPackages_def dirMap_def map_from_entries_def map_values_def
      map_keys_def map_get_def checkPackageDir_def skipBefore.simps skipSame.simps
      startsWithAt_def)
next
  fix pkg :: PackageGraphNode
  assume "Some pkg \<in> set (listChangedPackages relativeDir graph changedFiles)"
  then show "\<exists>f \<in> set changedFiles. prefix (relativeDir (dir pkg) @ ''/'') f"
    by (rule result_member(2))
next
  fix pkg :: PackageGraphNode and c s
  assume c: "c \<noteq> CHR ''/''"
    and all: "\<forall>f \<in> set changedFiles. prefix (relativeDir (dir pkg) @ c # s @ ''/'') f"
  show "Some pkg \<notin> set (listChangedPackages relativeDir graph changedFiles)"
  proof
    assume "Some pkg \<in> set (listChangedPackages relativeDir graph changedFiles)"
    from result_member(2) [OF this] obtain f where
      f: "f \<in> set changedFiles" "prefix (relativeDir (dir pkg) @ ''/'') f"
      by blast
    from all f(1) have "prefix (relativeDir (dir pkg) @ c # s @ ''/'') f" by blast
    with f(2) separator_tells_siblings_apart [OF c, of "relativeDir (dir pkg)" f s]
    show False by blast
  qed
qed

theorem listChangedPackages_prefix_collision_witness:
  "(relativeToRoot (dir (plainNode ''a'' ''/r/pkg-a'')) = ''pkg-a'' \<and>
    relativeToRoot (dir (plainNode ''ab'' ''/r/pkg-ab'')) = ''pkg-ab'' \<and>
    listChangedPackages relativeToRoot
      [(''a'', plainNode ''a'' ''/r/pkg-a''), (''ab'', plainNode ''ab'' ''/r/pkg-ab'')]
      [''pkg-ab/x.ts''] = [Some (plainNode ''ab'' ''/r/pkg-ab'')]) \<and>
   (Some (plainNode ''ab'' ''/r/pkg-ab'')
      \<in> set (listChangedPackages relativeToRoot
           [(''a'', plainNode ''a'' ''/r/pkg-a''), (''ab'', plainNode ''ab'' ''/r/pkg-ab'')]
           [''pkg-ab/x.ts'']) \<and>
    (\<exists>f \<in> set [''pkg-ab/x.ts''].
       prefix (relativeToRoot (dir (plainNode ''ab'' ''/r/pkg-ab'')) @ ''/'') f)) \<and>
   (CHR ''b'' \<noteq> CHR ''/'' \<and>
    prefix (relativeToRoot (dir (plainNode ''a'' ''/r/pkg-a'')) @ CHR ''b'' # [] @ ''/'')
      ''pkg-ab/x.ts'' \<and>
    Some (plainNode ''a'' ''/r/pkg-a'')
      \<notin> set (listChangedPackages relativeToRoot
           [(''a'', plainNode ''a'' ''/r/pkg-a''), (''ab'', plainNode ''ab'' ''/r/pkg-ab'')]
           [''pkg-ab/x.ts'']))"
proof -
  note inst = listChangedPackages_prefix_collision
    [of relativeToRoot "plainNode ''a'' ''/r/pkg-a''" "plainNode ''ab'' ''/r/pkg-ab''"
       "''a''" "''ab''"
       "[(''a'', plainNode ''a'' ''/r/pkg-a''), (''ab'', plainNode ''ab'' ''/r/pkg-ab'')]"
       "[''pkg-ab/x.ts'']"]
  have a: "relativeToRoot (dir (plainNode ''a'' ''/r/pkg-a'')) = ''pkg-a''"
    by (simp add: relativeToRoot_def plainNode_dir)
  have ab: "relativeToRoot (dir (plainNode ''ab'' ''/r/pkg-ab'')) = ''pkg-ab''"
    by (simp add: relativeToRoot_def plainNode_dir)
  have 1: "listChangedPackages relativeToRoot
      [(''a'', plainNode ''a'' ''/r/pkg-a''), (''ab'', plainNode ''ab'' ''/r/pkg-ab'')]
      [''pkg-ab/x.ts''] = [Some (plainNode ''ab'' ''/r/pkg-ab'')]"
    by (rule inst [THEN conjunct1, rule_format, OF a ab, THEN conjunct1])
  have mem: "Some (plainNode ''ab'' ''/r/pkg-ab'')
      \<in> set (listChangedPackages relativeToRoot
           [(''a'', plainNode ''a'' ''/r/pkg-a''), (''ab'', plainNode ''ab'' ''/r/pkg-ab'')]
           [''pkg-ab/x.ts''])"
    by (simp add: 1)
  have 2: "\<exists>f \<in> set [''pkg-ab/x.ts''].
       prefix (relativeToRoot (dir (plainNode ''ab'' ''/r/pkg-ab'')) @ ''/'') f"
    by (rule inst [THEN conjunct2, THEN conjunct1, rule_format, OF mem])
  have c: "CHR ''b'' \<noteq> CHR ''/''" by simp
  have all: "\<forall>f \<in> set [''pkg-ab/x.ts''].
       prefix (relativeToRoot (dir (plainNode ''a'' ''/r/pkg-a'')) @ CHR ''b'' # [] @ ''/'') f"
    by (simp add: a)
  have 3: "Some (plainNode ''a'' ''/r/pkg-a'')
      \<notin> set (listChangedPackages relativeToRoot
           [(''a'', plainNode ''a'' ''/r/pkg-a''), (''ab'', plainNode ''ab'' ''/r/pkg-ab'')]
           [''pkg-ab/x.ts''])"
    by (rule inst [THEN conjunct2, THEN conjunct2, rule_format, OF c])
      (rule all [rule_format])
  have one: "prefix (relativeToRoot (dir (plainNode ''a'' ''/r/pkg-a'')) @ CHR ''b'' # [] @ ''/'')
      ''pkg-ab/x.ts''"
    by (simp add: a)
  from a ab 1 mem 2 c one 3 show ?thesis
    by (intro conjI)
qed

end
